theory Spec2Isabelle
  imports Complex_Main "HOL-Library.Sublist" "HOL-Library.AList" "HOL-Library.Monad_Syntax"
begin

section \<open>Data model\<close>

text \<open>
  A shallow embedding of the navigation agent: \<^verbatim>\<open>agent/state.py\<close>,
  \<^verbatim>\<open>agent/graph.py\<close>, \<^verbatim>\<open>tools/validator.py\<close>, \<^verbatim>\<open>tools/vision.py\<close>,
  \<^verbatim>\<open>utils/bbox_guards.py\<close> and \<^verbatim>\<open>utils/image_hash.py\<close>.

  Python \<^verbatim>\<open>int\<close> is \<open>int\<close>, \<^verbatim>\<open>str\<close> and \<^verbatim>\<open>bytes\<close> are character lists, a value that
  may be \<^verbatim>\<open>None\<close> is an \<open>option\<close>, a raised exception is the \<open>Inl\<close> of a sum.
  Python floats are exact rationals here wherever the source compares or stores them;
  the two places where a float product is truncated to an integer
  (\<^verbatim>\<open>int(fx * w)\<close>, \<^verbatim>\<open>int(scale * w)\<close>) go through the parameter \<open>trunc_mul\<close>, so
  that what is proved about them holds for every rounding.
\<close>

type_synonym bytes = string

datatype error =
    RuntimeError string
  | ValidationError
  | ValueError
  | AttributeError
  | KeyError

datatype json =
    JNull
  | JBool bool
  | JInt int
  | JFloat rat
  | JStr string
  | JList "json list"
  | JDict "(string \<times> json) list"

datatype Stage = HOME | SEARCH_RESULTS | REPO | RELEASES | EXTRACTED | DONE

text \<open>
  The browser and the vision model are outside the program. The model keeps the
  trace of every call the program makes to them (newest first); what they answer is a
  function of that trace, held in a \<open>world\<close>. Each read of the page URL is an event
  of its own, so two reads may differ with no command between them.
\<close>

datatype event =
    Goto string
  | Observe
  | ReadUrl
  | ClickPoint int int
  | ClickBBox int int int int
  | PressKey string
  | TypeText string
  | Scroll string int
  | Back
  | WaitForIdle
  | GetAction bytes string string
  | GetReleaseExtract bytes string

record world =
  browser_url :: "event list \<Rightarrow> string"
  browser_title :: "event list \<Rightarrow> string"
  browser_screenshot :: "event list \<Rightarrow> bytes"
  viewport_size :: "event list \<Rightarrow> (int \<times> int) option"
  call_json :: "event list \<Rightarrow> error + json"
  image_size :: "bytes \<Rightarrow> int \<times> int"
  image_hash :: "bytes \<Rightarrow> string"
  trunc_mul :: "rat \<Rightarrow> int \<Rightarrow> int"
  lax_int :: "json \<Rightarrow> int option"
  lax_float :: "json \<Rightarrow> rat option"
  repeat_threshold :: int
  tracer_run_dir :: string
  tracer_save_image :: "int \<Rightarrow> bytes \<Rightarrow> string"

text \<open>
  The fields of a \<open>world\<close> are the collaborators \<^verbatim>\<open>build_graph\<close> is given and the
  libraries under them:
  \<^item> \<open>browser_url\<close>, \<open>browser_title\<close>, \<open>browser_screenshot\<close>, \<open>viewport_size\<close>: what
    the page shows after the calls of the trace;
  \<^item> \<open>call_json\<close>: what \<^verbatim>\<open>VisionClient._call_json\<close> returns (the parsed payload, or
    the \<^verbatim>\<open>RuntimeError\<close> after its three attempts) for the call at the head of the trace;
  \<^item> \<open>image_size\<close>, \<open>image_hash\<close>: the size of a decoded screenshot and
    \<^verbatim>\<open>average_hash\<close> of it (the image library is taken to decode every screenshot);
  \<^item> \<open>trunc_mul f w\<close>: \<^verbatim>\<open>int(f * w)\<close> in float arithmetic;
  \<^item> \<open>lax_int\<close>, \<open>lax_float\<close>: what the validation library makes of a value that is
    not a JSON number of the field's own kind (its lax conversions);
  \<^item> \<open>repeat_threshold\<close>: the validator's threshold (3 unless configured);
  \<^item> \<open>tracer_run_dir\<close>, \<open>tracer_save_image\<close>: the trace writer's directory and the
    path it saves a screenshot to.
\<close>

section \<open>Strings\<close>

definition lower_char :: "char \<Rightarrow> char" where
  "lower_char c =
     (let n = (of_char c :: nat) in if 65 \<le> n \<and> n \<le> 90 then char_of (n + 32) else c)"

definition lower :: "string \<Rightarrow> string" where
  "lower s = map lower_char s"

text \<open>Python's \<^verbatim>\<open>a in b\<close> on strings: \<open>a\<close> occurs in \<open>b\<close> as a contiguous run.\<close>

definition contains :: "string \<Rightarrow> string \<Rightarrow> bool" where
  "contains b a = sublist a b"

section \<open>The geometric gate of the candidate filter (utils/bbox\_guards.py)\<close>

definition bbox_in_valid_column :: "int \<times> int \<times> int \<times> int \<Rightarrow> int \<Rightarrow> int \<Rightarrow> bool" where
  "bbox_in_valid_column bbox img_w img_h =
     (case bbox of (x1, y1, x2, y2) \<Rightarrow>
        if x2 \<le> x1 \<or> y2 \<le> y1 then False
        else if x2 - x1 < 5 \<or> y2 - y1 < 5 then False
        else
          let cx = (of_int (x1 + x2) :: rat) / 2;
              cy = (of_int (y1 + y2) :: rat) / 2;
              header_frac = (10 / 100 :: rat);
              left_frac = (16 / 100 :: rat);
              right_frac = (82 / 100 :: rat)
          in if cy < of_int img_h * header_frac then False
             else if cx < of_int img_w * left_frac then False
             else if cx > of_int img_w * right_frac then False
             else True)"

section \<open>Grid exploration (agent/graph.py)\<close>

definition clamp_bbox_to_viewport ::
  "(int \<times> int) option \<Rightarrow> int \<times> int \<times> int \<times> int \<Rightarrow> int \<times> int \<times> int \<times> int" where
  "clamp_bbox_to_viewport viewport bbox =
     (case bbox of (x1, y1, x2, y2) \<Rightarrow>
        (case (case viewport of None \<Rightarrow> (1280, 720) | Some v \<Rightarrow> v) of (w, h) \<Rightarrow>
           (max 220 (min x1 w), max 0 (min y1 h), max 220 (min x2 w), max 0 (min y2 h))))"

text \<open>\<open>tm f w\<close> stands for \<^verbatim>\<open>int(f * w)\<close>, the float product truncated.\<close>

definition shrink_top_left ::
  "(rat \<Rightarrow> int \<Rightarrow> int) \<Rightarrow> int \<times> int \<times> int \<times> int \<Rightarrow> rat \<Rightarrow> int \<times> int \<times> int \<times> int" where
  "shrink_top_left tm bbox scale =
     (case bbox of (x1, y1, x2, y2) \<Rightarrow>
        let w = max 1 (x2 - x1);
            h = max 1 (y2 - y1)
        in (x1, y1, x1 + tm scale w, y1 + tm scale h))"

definition grid_points ::
  "(rat \<Rightarrow> int \<Rightarrow> int) \<Rightarrow> int \<Rightarrow> int \<Rightarrow> int \<Rightarrow> int \<Rightarrow> nat \<Rightarrow> nat \<Rightarrow> (int \<times> int) list" where
  "grid_points tm x1 y1 x2 y2 xs ys =
     (let w = max 1 (x2 - x1);
          h = max 1 (y2 - y1);
          xs_fracs = map (\<lambda>i. (of_nat i + 1) / (of_nat xs + 1)) [0..<xs];
          ys_fracs = map (\<lambda>i. (of_nat i + 1) / (of_nat ys + 1)) [0..<ys];
          points = concat (map (\<lambda>fy. map (\<lambda>fx.
                     (min (max (x1 + tm fx w) (x1 + 4)) (x2 - 4),
                      min (max (y1 + tm fy h) (y1 + 4)) (y2 - 4))) xs_fracs) ys_fracs)
      in take 10 points)"

text \<open>
  The inner loop of \<^verbatim>\<open>_explore_click_points_multi\<close> over the points of one round:
  read the URL, click, read the URL again; stop at the first click after which the URL
  changed and holds the target path.
\<close>

fun explore_points ::
  "world \<Rightarrow> string \<Rightarrow> (int \<times> int) list \<Rightarrow> event list \<Rightarrow> bool \<times> event list" where
  "explore_points W target_path [] tr = (False, tr)"
| "explore_points W target_path ((px, py) # pts) tr =
     (let tr1 = ReadUrl # tr;
          url_before = browser_url W tr1;
          tr2 = ReadUrl # ClickPoint px py # tr1;
          url_after = browser_url W tr2
      in if url_after \<noteq> url_before \<and> contains (lower url_after) target_path then (True, tr2)
         else explore_points W target_path pts tr2)"

fun explore_rounds ::
  "world \<Rightarrow> string \<Rightarrow> (int \<times> int) list list \<Rightarrow> event list \<Rightarrow> bool \<times> event list" where
  "explore_rounds W target_path [] tr = (False, tr)"
| "explore_rounds W target_path (points # rounds) tr =
     (case explore_points W target_path points tr of
        (True, tr') \<Rightarrow> (True, tr')
      | (False, tr') \<Rightarrow> explore_rounds W target_path rounds tr')"

definition explore_click_points_multi ::
  "world \<Rightarrow> event list \<Rightarrow> int \<times> int \<times> int \<times> int \<Rightarrow> string \<Rightarrow> bool \<times> event list" where
  "explore_click_points_multi W tr bbox target_repo =
     (case clamp_bbox_to_viewport (viewport_size W tr) bbox of (x1, y1, x2, y2) \<Rightarrow>
        if x2 \<le> x1 + 20 \<or> y2 \<le> y1 + 20 then (False, tr)
        else
          let tm = trunc_mul W;
              round_a = grid_points tm x1 y1 x2 y2 3 2;
              b = shrink_top_left tm (x1, y1, x2, y2) (70 / 100);
              round_b = (case b of (bx1, by1, bx2, by2) \<Rightarrow> grid_points tm bx1 by1 bx2 by2 5 2);
              c = shrink_top_left tm b (70 / 100);
              round_c = (case c of (cx1, cy1, cx2, cy2) \<Rightarrow> grid_points tm cx1 cy1 cx2 cy2 5 2);
              target_path = lower (''/'' @ target_repo)
          in explore_rounds W target_path [round_a, round_b, round_c] tr)"

text \<open>The clicks a trace holds.\<close>

fun clicks :: "event list \<Rightarrow> (int \<times> int) list" where
  "clicks [] = []"
| "clicks (ClickPoint x y # tr) = (x, y) # clicks tr"
| "clicks (e # tr) = clicks tr"

section \<open>Action schema and normalizer (tools/vision.py)\<close>

record ScrollSpec =
  direction :: string
  amount :: int

record ExpectSpec =
  url_contains :: "string option"
  page_contains_text :: "string option"

record CandidateBBox =
  cand_bbox :: "int list"
  cand_confidence :: "rat option"
  cand_text :: "string option"
  cand_reason :: "string option"

record Action =
  act_type :: string
  act_reason :: string
  act_bbox :: "int list option"
  act_text :: "string option"
  act_key :: "string option"
  act_scroll :: "ScrollSpec option"
  act_expect :: "ExpectSpec option"
  act_candidates :: "CandidateBBox list option"

text \<open>\<^verbatim>\<open>ReleaseExtract\<close> and \<^verbatim>\<open>ReleaseInfo\<close> have the same three fields.\<close>

record ReleaseInfo =
  version :: "string option"
  tag :: "string option"
  author :: "string option"

subsection \<open>Python dictionaries as association lists\<close>

text \<open>
  A dictionary keeps its keys in insertion order: \<open>AList.update\<close> overwrites the
  value of a key in place and appends a new key, as \<^verbatim>\<open>d[k] = v\<close> does.
\<close>

definition py_get :: "(string \<times> json) list \<Rightarrow> string \<Rightarrow> json" where
  "py_get d k = (case map_of d k of None \<Rightarrow> JNull | Some v \<Rightarrow> v)"

definition has_key :: "(string \<times> json) list \<Rightarrow> string \<Rightarrow> bool" where
  "has_key d k = (case map_of d k of None \<Rightarrow> False | Some v \<Rightarrow> True)"

definition py_merge :: "(string \<times> json) list \<Rightarrow> (string \<times> json) list \<Rightarrow> (string \<times> json) list" where
  "py_merge d e = foldl (\<lambda>acc kv. AList.update (fst kv) (snd kv) acc) d e"

text \<open>Python's \<^verbatim>\<open>round\<close> of a float: to the nearest integer, a tie to the even one.\<close>

definition py_round :: "rat \<Rightarrow> int" where
  "py_round q =
     (let f = \<lfloor>q\<rfloor>; d = q - of_int f
      in if d < 1 / 2 then f else if 1 / 2 < d then f + 1 else if even f then f else f + 1)"

subsection \<open>The normalizer\<close>

definition norm_type :: "(string \<times> json) list \<Rightarrow> (string \<times> json) list" where
  "norm_type payload =
     (let action_type = py_get payload ''type'';
          p1 = (case action_type of
                  JStr t \<Rightarrow> if lower t \<in> set [''bbox'', ''box'']
                            then AList.update ''type'' (JStr ''click'') payload else payload
                | _ \<Rightarrow> payload)
      in (case action_type of
            JStr t \<Rightarrow> if lower t \<in> set [''click_type'', ''click-and-type'', ''click_and_type'']
                      then AList.update ''type'' (JStr ''click'') p1 else p1
          | _ \<Rightarrow> p1))"

definition norm_coords :: "(string \<times> json) list \<Rightarrow> (string \<times> json) list" where
  "norm_coords payload =
     (if has_key payload ''coords'' \<and> \<not> has_key payload ''bbox''
      then AList.update ''bbox'' (py_get payload ''coords'') payload else payload)"

definition norm_bbox_list :: "(string \<times> json) list \<Rightarrow> (string \<times> json) list" where
  "norm_bbox_list payload =
     (case py_get payload ''bbox'' of
        JList (JList b0 # rest) \<Rightarrow>
          AList.update ''bbox'' JNull
            (AList.update ''candidates''
               (JList (map (\<lambda>b. JDict [(''bbox'', b)]) (JList b0 # rest))) payload)
      | _ \<Rightarrow> payload)"

definition norm_candidate :: "json \<Rightarrow> json option" where
  "norm_candidate c =
     (case c of
        JDict d \<Rightarrow>
          let d1 = (if has_key d ''coords'' \<and> \<not> has_key d ''bbox''
                    then AList.update ''bbox'' (py_get d ''coords'') d else d);
              d2 = (case py_get d1 ''bbox'' of JDict inner \<Rightarrow> py_merge d1 inner | _ \<Rightarrow> d1)
          in (case py_get d2 ''bbox'' of
                JList l \<Rightarrow> if has_key d2 ''bbox'' then Some (JDict d2) else None
              | _ \<Rightarrow> None)
      | JList l \<Rightarrow> if length l = 4 then Some (JDict [(''bbox'', JList l)]) else None
      | _ \<Rightarrow> None)"

definition norm_candidates :: "(string \<times> json) list \<Rightarrow> (string \<times> json) list" where
  "norm_candidates payload =
     (case py_get payload ''candidates'' of
        JList cands \<Rightarrow>
          AList.update ''candidates'' (JList (List.map_filter norm_candidate cands)) payload
      | _ \<Rightarrow> payload)"

definition norm_expect :: "(string \<times> json) list \<Rightarrow> (string \<times> json) list" where
  "norm_expect payload =
     (case py_get payload ''expect'' of
        JStr e \<Rightarrow> AList.update ''expect'' (JDict [(''page_contains_text'', JStr e)]) payload
      | _ \<Rightarrow> payload)"

definition norm_scroll :: "(string \<times> json) list \<Rightarrow> (string \<times> json) list" where
  "norm_scroll payload =
     (let scroll0 = py_get payload ''scroll'';
          p1 = (if scroll0 = JBool False then AList.update ''scroll'' JNull payload else payload);
          scroll = (if scroll0 = JBool False then JNull else scroll0)
      in (case scroll of
            JDict sd \<Rightarrow>
              (if has_key sd ''amount'' then
                 (case py_get sd ''amount'' of
                    JFloat a \<Rightarrow>
                      AList.update ''scroll''
                        (JDict (AList.update ''amount''
                           (JInt (if 0 < a \<and> a < 1 then 400 else py_round a)) sd)) p1
                  | _ \<Rightarrow> p1)
               else p1)
          | _ \<Rightarrow> p1))"

definition allowed_keys :: "string list" where
  "allowed_keys =
     [''Enter'', ''Tab'', ''Escape'', ''ArrowDown'', ''ArrowUp'', ''ArrowLeft'', ''ArrowRight'',
      ''PageDown'', ''PageUp'', ''Home'', ''End'', ''Backspace'', ''Delete'']"

definition norm_key :: "(string \<times> json) list \<Rightarrow> (string \<times> json) list" where
  "norm_key payload =
     (case py_get payload ''key'' of
        JStr k \<Rightarrow> if k \<notin> set allowed_keys then AList.update ''key'' JNull payload else payload
      | _ \<Rightarrow> payload)"

text \<open>
  \<^verbatim>\<open>_normalize_action_payload\<close>. Its first statement is \<^verbatim>\<open>payload.get("type")\<close>, which
  raises \<^verbatim>\<open>AttributeError\<close> on a payload that is not a dictionary.
\<close>

definition normalize_action_payload :: "json \<Rightarrow> error + json" where
  "normalize_action_payload payload =
     (case payload of
        JDict d \<Rightarrow>
          Inr (JDict (norm_key (norm_scroll (norm_expect (norm_candidates
                 (norm_bbox_list (norm_coords (norm_type d))))))))
      | _ \<Rightarrow> Inl AttributeError)"

subsection \<open>Validation against the schema\<close>

text \<open>
  \<^verbatim>\<open>model_validate\<close> of the four schema classes. A field without a default must be
  present; a field with default \<^verbatim>\<open>None\<close> may be absent or null; a key the class does
  not declare is ignored. \<open>None\<close> is a \<^verbatim>\<open>ValidationError\<close>.
\<close>

definition v_str :: "json \<Rightarrow> string option" where
  "v_str j = (case j of JStr s \<Rightarrow> Some s | _ \<Rightarrow> None)"

definition v_int :: "world \<Rightarrow> json \<Rightarrow> int option" where
  "v_int W j = (case j of JInt n \<Rightarrow> Some n | _ \<Rightarrow> lax_int W j)"

definition v_float :: "world \<Rightarrow> json \<Rightarrow> rat option" where
  "v_float W j = (case j of JFloat q \<Rightarrow> Some q | JInt n \<Rightarrow> Some (of_int n) | _ \<Rightarrow> lax_float W j)"

definition v_int_list :: "world \<Rightarrow> json \<Rightarrow> int list option" where
  "v_int_list W j = (case j of JList l \<Rightarrow> those (map (v_int W) l) | _ \<Rightarrow> None)"

definition v_req :: "(json \<Rightarrow> 'a option) \<Rightarrow> (string \<times> json) list \<Rightarrow> string \<Rightarrow> 'a option" where
  "v_req v d k = (case map_of d k of None \<Rightarrow> None | Some j \<Rightarrow> v j)"

definition v_opt :: "(json \<Rightarrow> 'a option) \<Rightarrow> (string \<times> json) list \<Rightarrow> string \<Rightarrow> 'a option option" where
  "v_opt v d k =
     (case map_of d k of
        None \<Rightarrow> Some None
      | Some JNull \<Rightarrow> Some None
      | Some j \<Rightarrow> map_option Some (v j))"

definition v_scroll :: "world \<Rightarrow> json \<Rightarrow> ScrollSpec option" where
  "v_scroll W j =
     (case j of
        JDict d \<Rightarrow> do {
          dir \<leftarrow> v_req v_str d ''direction'';
          a \<leftarrow> v_req (v_int W) d ''amount'';
          Some \<lparr>direction = dir, amount = a\<rparr> }
      | _ \<Rightarrow> None)"

definition v_expect :: "json \<Rightarrow> ExpectSpec option" where
  "v_expect j =
     (case j of
        JDict d \<Rightarrow> do {
          u \<leftarrow> v_opt v_str d ''url_contains'';
          t \<leftarrow> v_opt v_str d ''page_contains_text'';
          Some \<lparr>url_contains = u, page_contains_text = t\<rparr> }
      | _ \<Rightarrow> None)"

definition v_candidate :: "world \<Rightarrow> json \<Rightarrow> CandidateBBox option" where
  "v_candidate W j =
     (case j of
        JDict d \<Rightarrow> do {
          b \<leftarrow> v_req (v_int_list W) d ''bbox'';
          c \<leftarrow> v_opt (v_float W) d ''confidence'';
          t \<leftarrow> v_opt v_str d ''text'';
          r \<leftarrow> v_opt v_str d ''reason'';
          Some \<lparr>cand_bbox = b, cand_confidence = c, cand_text = t, cand_reason = r\<rparr> }
      | _ \<Rightarrow> None)"

definition v_candidates :: "world \<Rightarrow> json \<Rightarrow> CandidateBBox list option" where
  "v_candidates W j = (case j of JList l \<Rightarrow> those (map (v_candidate W) l) | _ \<Rightarrow> None)"

definition v_action :: "world \<Rightarrow> json \<Rightarrow> Action option" where
  "v_action W j =
     (case j of
        JDict d \<Rightarrow> do {
          ty \<leftarrow> v_req v_str d ''type'';
          re \<leftarrow> v_req v_str d ''reason'';
          bb \<leftarrow> v_opt (v_int_list W) d ''bbox'';
          tx \<leftarrow> v_opt v_str d ''text'';
          ke \<leftarrow> v_opt v_str d ''key'';
          sc \<leftarrow> v_opt (v_scroll W) d ''scroll'';
          ex \<leftarrow> v_opt v_expect d ''expect'';
          ca \<leftarrow> v_opt (v_candidates W) d ''candidates'';
          Some \<lparr>act_type = ty, act_reason = re, act_bbox = bb, act_text = tx, act_key = ke,
                act_scroll = sc, act_expect = ex, act_candidates = ca\<rparr> }
      | _ \<Rightarrow> None)"

definition Action_model_validate :: "world \<Rightarrow> json \<Rightarrow> error + Action" where
  "Action_model_validate W j = (case v_action W j of None \<Rightarrow> Inl ValidationError | Some a \<Rightarrow> Inr a)"

definition v_release :: "json \<Rightarrow> ReleaseInfo option" where
  "v_release j =
     (case j of
        JDict d \<Rightarrow> do {
          v \<leftarrow> v_opt v_str d ''version'';
          t \<leftarrow> v_opt v_str d ''tag'';
          a \<leftarrow> v_opt v_str d ''author'';
          Some \<lparr>version = v, tag = t, author = a\<rparr> }
      | _ \<Rightarrow> None)"

subsection \<open>The vision client's calls\<close>

text \<open>
  \<^verbatim>\<open>_call_action\<close>: the payload of \<^verbatim>\<open>_call_json\<close> (or its error), normalized, then
  validated; a \<^verbatim>\<open>ValidationError\<close> is raised again as a \<^verbatim>\<open>RuntimeError\<close>.
\<close>

definition call_action :: "world \<Rightarrow> error + json \<Rightarrow> error + Action" where
  "call_action W r =
     (case r of
        Inl e \<Rightarrow> Inl e
      | Inr payload \<Rightarrow>
          (case normalize_action_payload payload of
             Inl e \<Rightarrow> Inl e
           | Inr p \<Rightarrow>
               (case Action_model_validate W p of
                  Inl e \<Rightarrow> Inl (RuntimeError ''Invalid Action JSON'')
                | Inr a \<Rightarrow> Inr a)))"

definition call_extract :: "error + json \<Rightarrow> error + ReleaseInfo" where
  "call_extract r =
     (case r of
        Inl e \<Rightarrow> Inl e
      | Inr payload \<Rightarrow>
          (case v_release payload of
             None \<Rightarrow> Inl (RuntimeError ''Invalid Release JSON'')
           | Some x \<Rightarrow> Inr x))"

definition get_action ::
  "world \<Rightarrow> event list \<Rightarrow> bytes \<Rightarrow> string \<Rightarrow> string \<Rightarrow> (error + Action) \<times> event list" where
  "get_action W tr png subgoal stage_name =
     (let tr' = GetAction png subgoal stage_name # tr in (call_action W (call_json W tr'), tr'))"

definition get_release_extract ::
  "world \<Rightarrow> event list \<Rightarrow> bytes \<Rightarrow> string \<Rightarrow> (error + ReleaseInfo) \<times> event list" where
  "get_release_extract W tr png repo =
     (let tr' = GetReleaseExtract png repo # tr in (call_extract (call_json W tr'), tr'))"

section \<open>Session state (agent/state.py)\<close>

datatype node = OBSERVE | DECIDE | ACT | VALIDATE | EXTRACT | END

text \<open>
  An entry of \<^verbatim>\<open>pending_candidates\<close>: the dictionary \<^verbatim>\<open>act_node\<close> builds, with the keys
  \<^verbatim>\<open>bbox\<close>, \<^verbatim>\<open>confidence\<close> and \<^verbatim>\<open>reason\<close>.
\<close>

record Candidate =
  pc_bbox :: "int list"
  pc_confidence :: "rat option"
  pc_reason :: "string option"

text \<open>
  \<^verbatim>\<open>last_action\<close> holds the dictionary \<^verbatim>\<open>model_dump\<close> gives for an \<^verbatim>\<open>Action\<close>, or one of
  the literal dictionaries of \<^verbatim>\<open>validate_node\<close>; \<^verbatim>\<open>Action.model_validate\<close> reads each back
  as the action it stands for, so the field holds that action. \<^verbatim>\<open>next_node\<close> holds
  the name of a node (\<^verbatim>\<open>END\<close> is LangGraph's end marker).
\<close>

record AgentState =
  target_repo :: string
  start_url :: string
  prompt :: "string option"
  vlm_model :: "string option"
  router_model :: "string option"
  prompt_model :: "string option"
  current_url :: "string option"
  page_title :: "string option"
  last_png_bytes :: "bytes option"
  last_png_bytes_raw :: "bytes option"
  last_screenshot_path :: "string option"
  step_count :: int
  retry_count :: int
  max_steps :: int
  max_retries_per_stage :: int
  last_urls :: "string list"
  last_screenshot_hashes :: "string list"
  stage :: Stage
  last_action :: "Action option"
  last_bbox :: "int list option"
  refine_level :: int
  pending_candidates :: "Candidate list"
  extracted_release :: "ReleaseInfo option"
  run_dir :: "string option"
  next_node :: "node option"

text \<open>Python truth of an optional string, byte string or list: present and not empty.\<close>

definition truthy :: "'a list option \<Rightarrow> bool" where
  "truthy x = (case x of None \<Rightarrow> False | Some l \<Rightarrow> l \<noteq> [])"

definition keep_last :: "nat \<Rightarrow> 'a list \<Rightarrow> 'a list" where
  "keep_last max_keep l = (if length l > max_keep then drop (length l - max_keep) l else l)"

definition push_url :: "string \<Rightarrow> AgentState \<Rightarrow> AgentState" where
  "push_url url s = s\<lparr>last_urls := keep_last 6 (last_urls s @ [url])\<rparr>"

definition push_hash :: "string \<Rightarrow> AgentState \<Rightarrow> AgentState" where
  "push_hash h s = s\<lparr>last_screenshot_hashes := keep_last 6 (last_screenshot_hashes s @ [h])\<rparr>"

text \<open>
  \<^verbatim>\<open>AgentState.model_validate\<close>, with which every node starts. The record is typed
  already; what can fail is \<^verbatim>\<open>last_bbox\<close>, declared a 4-tuple and assigned
  \<^verbatim>\<open>tuple(action.bbox)\<close> of any length.
\<close>

definition AgentState_model_validate :: "AgentState \<Rightarrow> error + AgentState" where
  "AgentState_model_validate s =
     (case last_bbox s of
        None \<Rightarrow> Inr s
      | Some b \<Rightarrow> if length b = 4 then Inr s else Inl ValidationError)"

text \<open>The state \<^verbatim>\<open>navigate.py\<close> starts a run with.\<close>

definition initial_state ::
  "world \<Rightarrow> string \<Rightarrow> string \<Rightarrow> string option \<Rightarrow> string \<Rightarrow> string \<Rightarrow> string \<Rightarrow> int \<Rightarrow> int \<Rightarrow> AgentState" where
  "initial_state W repo url user_prompt m_vlm m_router m_prompt steps retries =
     \<lparr>target_repo = repo, start_url = url, prompt = user_prompt, vlm_model = Some m_vlm,
      router_model = Some m_router, prompt_model = Some m_prompt,
      current_url = None, page_title = None, last_png_bytes = None, last_png_bytes_raw = None,
      last_screenshot_path = None, step_count = 0, retry_count = 0, max_steps = steps,
      max_retries_per_stage = retries, last_urls = [], last_screenshot_hashes = [],
      stage = HOME, last_action = None, last_bbox = None, refine_level = 0,
      pending_candidates = [], extracted_release = None,
      run_dir = Some (tracer_run_dir W), next_node = None\<rparr>"

section \<open>Validator (tools/validator.py)\<close>

record ValidationResult =
  new_stage :: "Stage option"
  recovery_action :: "Action option"
  should_extract :: bool
  should_stop :: bool
  vr_reason :: "string option"

definition empty_result :: ValidationResult where
  "empty_result =
     \<lparr>new_stage = None, recovery_action = None, should_extract = False, should_stop = False,
      vr_reason = None\<rparr>"

definition plain_action :: "string \<Rightarrow> string \<Rightarrow> Action" where
  "plain_action ty re =
     \<lparr>act_type = ty, act_reason = re, act_bbox = None, act_text = None, act_key = None,
      act_scroll = None, act_expect = None, act_candidates = None\<rparr>"

definition scroll_down_action :: Action where
  "scroll_down_action =
     (plain_action ''scroll'' ''stuck_recovery_scroll_down'')
       \<lparr>act_scroll := Some \<lparr>direction = ''down'', amount = 500\<rparr>\<rparr>"

definition scroll_up_action :: Action where
  "scroll_up_action =
     (plain_action ''scroll'' ''stuck_recovery_scroll_up'')
       \<lparr>act_scroll := Some \<lparr>direction = ''up'', amount = 400\<rparr>\<rparr>"

definition back_action :: Action where
  "back_action = plain_action ''back'' ''stuck_recovery_back''"

text \<open>
  The stuck condition, on the state after the hash and the URL have been pushed:
  \<^verbatim>\<open>repeated_hashes >= threshold and repeated_urls >= threshold\<close>.
\<close>

definition stuck :: "world \<Rightarrow> AgentState \<Rightarrow> string \<Rightarrow> bool" where
  "stuck W s h =
     (let repeated_hashes = int (count_list (last_screenshot_hashes s) h);
          repeated_urls = (if truthy (current_url s)
                           then int (count_list (last_urls s) (the (current_url s))) else 0)
      in repeated_hashes \<ge> repeat_threshold W \<and> repeated_urls \<ge> repeat_threshold W)"

definition stage_progress :: "AgentState \<Rightarrow> ValidationResult" where
  "stage_progress s =
     (if truthy (current_url s) then
        let url = the (current_url s);
            r1 = (if contains url ''github.com/search'' \<and> stage s = HOME
                  then empty_result\<lparr>new_stage := Some SEARCH_RESULTS\<rparr> else empty_result);
            r2 = (if contains (lower url) (lower (target_repo s)) \<and> stage s \<in> {SEARCH_RESULTS, HOME}
                  then r1\<lparr>new_stage := Some REPO\<rparr> else r1)
        in (if contains url ''/releases'' \<and> stage s \<in> {REPO, SEARCH_RESULTS}
            then r2\<lparr>new_stage := Some RELEASES, should_extract := True\<rparr> else r2)
      else empty_result)"

text \<open>
  \<^verbatim>\<open>Validator.assess\<close>. It first pushes the hash, and the URL if there is one, into the
  histories of the state it is given (\<open>record_observation\<close>), so the state is returned
  with the result.
\<close>

definition record_observation :: "string \<Rightarrow> AgentState \<Rightarrow> AgentState" where
  "record_observation h state =
     (let s1 = push_hash h state
      in if truthy (current_url s1) then push_url (the (current_url s1)) s1 else s1)"

definition recovery_for :: "int \<Rightarrow> Action" where
  "recovery_for retries =
     (let recovery_step = retries mod 3
      in if recovery_step = 0 then scroll_down_action
         else if recovery_step = 1 then scroll_up_action
         else back_action)"

definition assess :: "world \<Rightarrow> AgentState \<Rightarrow> bytes \<Rightarrow> ValidationResult \<times> string \<times> AgentState" where
  "assess W state png =
     (let h = image_hash W png;
          s2 = record_observation h state
      in if step_count s2 \<ge> max_steps s2
         then (empty_result\<lparr>should_stop := True, vr_reason := Some ''max_steps''\<rparr>, h, s2)
         else if stuck W s2 h
         then (empty_result\<lparr>recovery_action := Some (recovery_for (retry_count s2)),
                            vr_reason := Some ''stuck''\<rparr>, h, s2)
         else (stage_progress s2, h, s2))"

section \<open>The nodes of the graph (agent/graph.py)\<close>

definition stage_value :: "Stage \<Rightarrow> string" where
  "stage_value st =
     (case st of HOME \<Rightarrow> ''HOME'' | SEARCH_RESULTS \<Rightarrow> ''SEARCH_RESULTS'' | REPO \<Rightarrow> ''REPO''
      | RELEASES \<Rightarrow> ''RELEASES'' | EXTRACTED \<Rightarrow> ''EXTRACTED'' | DONE \<Rightarrow> ''DONE'')"

definition subgoal_for_stage :: "AgentState \<Rightarrow> string" where
  "subgoal_for_stage state =
     (if stage state = HOME then
        ''Find the search bar and search for '' @ target_repo state @ ''.''
      else if stage state = SEARCH_RESULTS then
        ''You are on GitHub search results. Find the FIRST result card for '' @ [CHR 0x22]
          @ target_repo state @ [CHR 0x22]
          @ '' and return a coarse bbox around the entire card (rounded rectangle containing avatar, title, description). Do NOT return a tight link bbox.''
      else if stage state = REPO then
        ''Find and click the Releases section in the right sidebar. If Releases is not visible, scroll down until it appears, then click it.''
      else if stage state = RELEASES then
        ''Ensure the latest release card is visible and readable.''
      else ''Wait or noop.'')"

definition critique :: string where
  "critique = '' The previous attempt did not change the URL. Return a corrected bbox or a new action using the current screenshot.''"

definition observe_node :: "world \<Rightarrow> AgentState \<Rightarrow> event list \<Rightarrow> error + AgentState \<times> event list" where
  "observe_node W state0 tr =
     (case AgentState_model_validate state0 of
        Inl e \<Rightarrow> Inl e
      | Inr state \<Rightarrow>
          let tr' = Observe # tr;
              png = browser_screenshot W tr';
              s1 = state\<lparr>current_url := Some (browser_url W tr'),
                         page_title := Some (browser_title W tr'),
                         last_png_bytes := Some png,
                         last_png_bytes_raw := Some png\<rparr>;
              s2 = (if step_count s1 = 0 \<and> \<not> truthy (run_dir s1)
                    then s1\<lparr>run_dir := Some (tracer_run_dir W)\<rparr> else s1);
              s3 = (if truthy (run_dir s2)
                    then s2\<lparr>last_screenshot_path :=
                              Some (tracer_save_image W (step_count s2 + 1) png)\<rparr>
                    else s2)
          in Inr (s3\<lparr>next_node := Some DECIDE\<rparr>, tr'))"

definition pending_action :: "Candidate \<Rightarrow> Action" where
  "pending_action c = (plain_action ''click'' ''pending_candidate'')\<lparr>act_bbox := Some (pc_bbox c)\<rparr>"

text \<open>
  \<^verbatim>\<open>decide_node\<close>: the forced stage, the choice of the action (the head of the pending
  queue, or a call of the vision model), and the bookkeeping. \<^verbatim>\<open>_save_bbox_overlay\<close> unpacks the bbox into four coordinates, a
  \<^verbatim>\<open>ValueError\<close> for any other length; drawing and writing the overlay are not modelled.
\<close>

definition force_search_stage :: "AgentState \<Rightarrow> AgentState" where
  "force_search_stage state =
     (if truthy (current_url state) \<and> contains (the (current_url state)) ''/search''
      then state\<lparr>stage := SEARCH_RESULTS\<rparr> else state)"

definition choose_action :: "world \<Rightarrow> AgentState \<Rightarrow> event list \<Rightarrow> (error + Action) \<times> event list" where
  "choose_action W s1 tr =
     (let subgoal = subgoal_for_stage s1;
          raw = (case last_png_bytes_raw s1 of None \<Rightarrow> [] | Some b \<Rightarrow> b)
      in if pending_candidates s1 \<noteq> [] \<and> stage s1 = SEARCH_RESULTS
         then (Inr (pending_action (hd (pending_candidates s1))), tr)
         else if retry_count s1 > 0
         then get_action W tr raw (subgoal @ critique) (stage_value (stage s1))
         else get_action W tr raw subgoal (stage_value (stage s1)))"

definition decide_node :: "world \<Rightarrow> AgentState \<Rightarrow> event list \<Rightarrow> error + AgentState \<times> event list" where
  "decide_node W state0 tr =
     (case AgentState_model_validate state0 of
        Inl e \<Rightarrow> Inl e
      | Inr state \<Rightarrow>
          let s1 = force_search_stage state
          in (case choose_action W s1 tr of
                (Inl e, tr') \<Rightarrow> Inl e
              | (Inr action, tr') \<Rightarrow>
                  let s2 = s1\<lparr>last_action := Some action\<rparr>;
                      s3 = (if truthy (act_bbox action)
                            then s2\<lparr>last_bbox := act_bbox action\<rparr> else s2)
                  in if truthy (act_bbox action) \<and> truthy (last_png_bytes s3)
                        \<and> length (the (act_bbox action)) \<noteq> 4
                     then Inl ValueError
                     else Inr (s3\<lparr>next_node := Some ACT\<rparr>, tr')))"

text \<open>\<^verbatim>\<open>x1, y1, x2, y2 = bbox\<close>: a \<^verbatim>\<open>ValueError\<close> unless the bbox has four entries.\<close>

definition as_tuple4 :: "int list \<Rightarrow> (int \<times> int \<times> int \<times> int) option" where
  "as_tuple4 b = (case b of [x1, y1, x2, y2] \<Rightarrow> Some (x1, y1, x2, y2) | _ \<Rightarrow> None)"

text \<open>
  \<^verbatim>\<open>_execute_action\<close>: the browser calls of one action, added to the trace. A schema
  object (\<^verbatim>\<open>action.scroll\<close>) is true whenever it is present.
\<close>

definition execute_action :: "Action \<Rightarrow> AgentState \<Rightarrow> event list \<Rightarrow> error + event list" where
  "execute_action action state tr =
     (if act_type action = ''click'' \<and> truthy (act_bbox action) then
        (case as_tuple4 (the (act_bbox action)) of
           None \<Rightarrow> Inl ValueError
         | Some (x1, y1, x2, y2) \<Rightarrow>
             let tr1 = ClickBBox x1 y1 x2 y2 # tr;
                 tr2 = (if truthy (act_text action) \<and> stage state = HOME
                        then PressKey ''Enter'' # TypeText (the (act_text action))
                               # PressKey ''Backspace'' # PressKey ''Meta+A'' # tr1
                        else tr1);
                 tr3 = (if truthy (act_key action) then PressKey (the (act_key action)) # tr2 else tr2)
             in Inr (WaitForIdle # tr3))
      else if act_type action = ''type'' then
        (let txt = (case act_text action of None \<Rightarrow> [] | Some t \<Rightarrow> t);
             typed = (if truthy (act_bbox action)
                      then (case as_tuple4 (the (act_bbox action)) of
                              None \<Rightarrow> Inl ValueError
                            | Some (x1, y1, x2, y2) \<Rightarrow> Inr (TypeText txt # ClickBBox x1 y1 x2 y2 # tr))
                      else Inr (TypeText txt # tr))
         in (case typed of
               Inl e \<Rightarrow> Inl e
             | Inr tr1 \<Rightarrow>
                 if truthy (act_key action) then Inr (PressKey (the (act_key action)) # tr1)
                 else if truthy (act_text action) then Inr (PressKey ''Enter'' # tr1)
                 else Inr tr1))
      else if act_type action = ''press'' \<and> truthy (act_key action) then
        Inr (WaitForIdle # PressKey (the (act_key action)) # tr)
      else if act_type action = ''scroll'' \<and> act_scroll action \<noteq> None then
        Inr (Scroll (direction (the (act_scroll action))) (amount (the (act_scroll action))) # tr)
      else if act_type action = ''back'' then Inr (Back # tr)
      else if act_type action = ''wait'' then Inr (WaitForIdle # tr)
      else Inr tr)"

text \<open>The candidates \<^verbatim>\<open>act_node\<close> collects: the model's own, then the primary bbox.\<close>

definition collect_candidates :: "Action \<Rightarrow> Candidate list" where
  "collect_candidates action =
     (case act_candidates action of
        None \<Rightarrow> []
      | Some cs \<Rightarrow>
          map (\<lambda>c. \<lparr>pc_bbox = cand_bbox c, pc_confidence = cand_confidence c, pc_reason = cand_reason c\<rparr>)
            (filter (\<lambda>c. length (cand_bbox c) = 4) cs))
     @ (if truthy (act_bbox action)
        then [\<lparr>pc_bbox = the (act_bbox action), pc_confidence = None, pc_reason = Some ''primary''\<rparr>]
        else [])"

text \<open>
  The filter loop: the first candidate the geometric gate accepts. The colour ratio
  computed beside it is only logged.
\<close>

fun choose_candidate :: "Candidate list \<Rightarrow> int \<Rightarrow> int \<Rightarrow> error + int list option" where
  "choose_candidate [] img_w img_h = Inr None"
| "choose_candidate (c # cs) img_w img_h =
     (case as_tuple4 (pc_bbox c) of
        None \<Rightarrow> Inl ValueError
      | Some t \<Rightarrow>
          if bbox_in_valid_column t img_w img_h then Inr (Some (pc_bbox c))
          else choose_candidate cs img_w img_h)"

definition noop_missing :: Action where
  "noop_missing = plain_action ''noop'' ''missing''"

definition finish_act :: "Action \<Rightarrow> AgentState \<Rightarrow> event list \<Rightarrow> error + AgentState \<times> event list" where
  "finish_act action state tr =
     (case execute_action action state tr of
        Inl e \<Rightarrow> Inl e
      | Inr tr' \<Rightarrow> Inr (state\<lparr>step_count := step_count state + 1, next_node := Some VALIDATE\<rparr>, tr'))"

text \<open>
  The first branch of \<^verbatim>\<open>act_node\<close>: in \<^verbatim>\<open>SEARCH_RESULTS\<close>, a click with a bbox goes to
  the grid exploration, and the stage advances only if it reports success.
\<close>

definition act_explore ::
  "world \<Rightarrow> AgentState \<Rightarrow> Action \<Rightarrow> event list \<Rightarrow> error + AgentState \<times> event list" where
  "act_explore W state action tr =
     (case as_tuple4 (the (act_bbox action)) of
        None \<Rightarrow> Inl ValueError
      | Some bbox \<Rightarrow>
          (case explore_click_points_multi W tr bbox (target_repo state) of
             (success, tr') \<Rightarrow>
               let s1 = (if success then state\<lparr>stage := REPO\<rparr> else state)
               in Inr (s1\<lparr>step_count := step_count s1 + 1, next_node := Some VALIDATE\<rparr>, tr')))"

text \<open>
  The second branch: in \<^verbatim>\<open>SEARCH_RESULTS\<close> with a screenshot, the candidates go through
  the filter before the click.
\<close>

definition act_filter ::
  "world \<Rightarrow> AgentState \<Rightarrow> Action \<Rightarrow> event list \<Rightarrow> error + AgentState \<times> event list" where
  "act_filter W state action tr =
     (case image_size W (the (last_png_bytes_raw state)) of
        (img_w, img_h) \<Rightarrow>
          let candidates = collect_candidates action
          in if candidates \<noteq> [] \<and> act_type action \<in> {''click'', ''click_candidates''} then
               (case choose_candidate candidates img_w img_h of
                  Inl e \<Rightarrow> Inl e
                | Inr None \<Rightarrow>
                    let s1 = state\<lparr>retry_count := retry_count state + 1\<rparr>
                    in if retry_count s1 > max_retries_per_stage s1
                       then Inr (s1\<lparr>stage := DONE, next_node := Some END\<rparr>, tr)
                       else Inr (s1\<lparr>next_node := Some VALIDATE\<rparr>, tr)
                | Inr (Some chosen) \<Rightarrow>
                    let remaining = filter (\<lambda>c. pc_bbox c \<noteq> chosen) candidates;
                        s1 = state\<lparr>pending_candidates := remaining\<rparr>;
                        action' = action\<lparr>act_bbox := Some chosen, act_type := ''click''\<rparr>
                    in finish_act action' s1 tr)
             else finish_act action state tr)"

text \<open>\<^verbatim>\<open>state.last_action or {"type": "noop", "reason": "missing"}\<close>, validated.\<close>

definition current_action :: "AgentState \<Rightarrow> Action" where
  "current_action state = (case last_action state of None \<Rightarrow> noop_missing | Some a \<Rightarrow> a)"

definition act_node :: "world \<Rightarrow> AgentState \<Rightarrow> event list \<Rightarrow> error + AgentState \<times> event list" where
  "act_node W state0 tr =
     (case AgentState_model_validate state0 of
        Inl e \<Rightarrow> Inl e
      | Inr state \<Rightarrow>
          let action = current_action state
          in if stage state = SEARCH_RESULTS \<and> act_type action = ''click'' \<and> truthy (act_bbox action)
             then act_explore W state action tr
             else if stage state = SEARCH_RESULTS \<and> truthy (last_png_bytes_raw state)
             then act_filter W state action tr
             else finish_act action state tr)"

definition next_candidate_action :: "Candidate \<Rightarrow> Action" where
  "next_candidate_action c = (plain_action ''click'' ''next_candidate'')\<lparr>act_bbox := Some (pc_bbox c)\<rparr>"

text \<open>The stage transition of \<^verbatim>\<open>validate_node\<close>, applied when the result names a stage.\<close>

definition apply_transition :: "ValidationResult \<Rightarrow> AgentState \<Rightarrow> AgentState" where
  "apply_transition result s =
     (case new_stage result of
        None \<Rightarrow> s
      | Some st \<Rightarrow> s\<lparr>stage := st, retry_count := 0, refine_level := 0, pending_candidates := []\<rparr>)"

text \<open>
  The failed navigation of \<^verbatim>\<open>validate_node\<close>: in \<^verbatim>\<open>SEARCH_RESULTS\<close>, after a click, with
  the last two URLs of the history equal.
\<close>

definition failed_navigation :: "AgentState \<Rightarrow> bool" where
  "failed_navigation s =
     (stage s = SEARCH_RESULTS
      \<and> (case last_action s of None \<Rightarrow> False | Some a \<Rightarrow> act_type a = ''click'')
      \<and> length (last_urls s) \<ge> 2
      \<and> last (last_urls s) = last (butlast (last_urls s)))"

text \<open>
  \<^verbatim>\<open>validate_node\<close> after the call of \<^verbatim>\<open>validator.assess\<close>: the login escape, the stage
  transition, the stop, the recovery action, the failed navigation, the extraction.
\<close>

definition validate_outcome ::
  "ValidationResult \<Rightarrow> AgentState \<Rightarrow> event list \<Rightarrow> error + AgentState \<times> event list" where
  "validate_outcome result s1 tr =
     (if truthy (current_url s1) \<and> contains (the (current_url s1)) ''/login''
      then Inr (s1\<lparr>next_node := Some OBSERVE\<rparr>, tr)
      else
        let s2 = apply_transition result s1
        in if should_stop result
           then Inr (s2\<lparr>stage := DONE, next_node := Some END\<rparr>, tr)
           else
             (case recovery_action result of
                Some ra \<Rightarrow>
                  let s3 = s2\<lparr>retry_count := retry_count s2 + 1\<rparr>
                  in if retry_count s3 > max_retries_per_stage s3
                     then Inr (s3\<lparr>stage := DONE, next_node := Some END\<rparr>, tr)
                     else Inr (s3\<lparr>last_action := Some ra, next_node := Some ACT\<rparr>, tr)
              | None \<Rightarrow>
                  if failed_navigation s2 then
                    (case pending_candidates s2 of
                       next_cand # rest \<Rightarrow>
                         Inr (s2\<lparr>pending_candidates := rest,
                                  last_action := Some (next_candidate_action next_cand),
                                  next_node := Some ACT\<rparr>, tr)
                     | [] \<Rightarrow>
                         Inr (s2\<lparr>refine_level := min (refine_level s2 + 1) 2,
                                  retry_count := retry_count s2 + 1,
                                  next_node := Some OBSERVE\<rparr>, tr))
                  else if should_extract result \<and> stage s2 = RELEASES
                  then Inr (s2\<lparr>next_node := Some EXTRACT\<rparr>, tr)
                  else Inr (s2\<lparr>next_node := Some OBSERVE\<rparr>, tr)))"

definition validate_node :: "world \<Rightarrow> AgentState \<Rightarrow> event list \<Rightarrow> error + AgentState \<times> event list" where
  "validate_node W state0 tr =
     (case AgentState_model_validate state0 of
        Inl e \<Rightarrow> Inl e
      | Inr state \<Rightarrow>
          if \<not> truthy (last_png_bytes state) then Inr (state\<lparr>next_node := Some OBSERVE\<rparr>, tr)
          else
            (case assess W state (the (last_png_bytes state)) of
               (result, img_hash, s1) \<Rightarrow> validate_outcome result s1 tr))"

definition extract_node :: "world \<Rightarrow> AgentState \<Rightarrow> event list \<Rightarrow> error + AgentState \<times> event list" where
  "extract_node W state0 tr =
     (case AgentState_model_validate state0 of
        Inl e \<Rightarrow> Inl e
      | Inr state \<Rightarrow>
          if \<not> truthy (last_png_bytes state) then Inr (state\<lparr>next_node := Some OBSERVE\<rparr>, tr)
          else
            (case get_release_extract W tr (the (last_png_bytes state)) (target_repo state) of
               (Inl e, tr') \<Rightarrow> Inl e
             | (Inr release, tr') \<Rightarrow>
                 Inr (state\<lparr>extracted_release := Some release, stage := EXTRACTED,
                            next_node := Some END\<rparr>, tr')))"

section \<open>The graph\<close>

text \<open>
  The conditional edges of \<^verbatim>\<open>build_graph\<close>: after a node, the run goes to the node its
  state names in \<^verbatim>\<open>next_node\<close>, looked up in the path map of the edge. A name the path
  map does not hold is a failed lookup.
\<close>

definition path_map :: "node \<Rightarrow> node list" where
  "path_map n =
     (case n of
        OBSERVE \<Rightarrow> [DECIDE]
      | DECIDE \<Rightarrow> [ACT]
      | ACT \<Rightarrow> [VALIDATE]
      | VALIDATE \<Rightarrow> [OBSERVE, ACT, EXTRACT, END]
      | EXTRACT \<Rightarrow> [END]
      | END \<Rightarrow> [])"

definition route :: "node \<Rightarrow> AgentState \<Rightarrow> error + node" where
  "route n s =
     (case next_node s of
        None \<Rightarrow> Inl KeyError
      | Some t \<Rightarrow> if t \<in> set (path_map n) then Inr t else Inl KeyError)"

definition run_node :: "world \<Rightarrow> node \<Rightarrow> AgentState \<Rightarrow> event list \<Rightarrow> error + AgentState \<times> event list" where
  "run_node W n s tr =
     (case n of
        OBSERVE \<Rightarrow> observe_node W s tr
      | DECIDE \<Rightarrow> decide_node W s tr
      | ACT \<Rightarrow> act_node W s tr
      | VALIDATE \<Rightarrow> validate_node W s tr
      | EXTRACT \<Rightarrow> extract_node W s tr
      | END \<Rightarrow> Inr (s, tr))"

type_synonym config = "node \<times> AgentState \<times> event list"

definition step :: "world \<Rightarrow> config \<Rightarrow> error + config" where
  "step W c =
     (case c of (n, s, tr) \<Rightarrow>
        (case run_node W n s tr of
           Inl e \<Rightarrow> Inl e
         | Inr (s', tr') \<Rightarrow>
             (case route n s' of
                Inl e \<Rightarrow> Inl e
              | Inr n' \<Rightarrow> Inr (n', s', tr'))))"

text \<open>\<open>steps W k c\<close>: \<open>k\<close> nodes run from \<open>c\<close>; the run rests once it is at \<open>END\<close>.\<close>

fun steps :: "world \<Rightarrow> nat \<Rightarrow> config \<Rightarrow> error + config" where
  "steps W 0 c = Inr c"
| "steps W (Suc k) c =
     (if fst c = END then Inr c
      else (case step W c of Inl e \<Rightarrow> Inl e | Inr c' \<Rightarrow> steps W k c'))"

text \<open>
  The configurations a run can be in: it starts at \<open>OBSERVE\<close> with the initial state
  and the page opened, and goes on node by node until \<open>END\<close> or an exception.
\<close>

inductive reach :: "world \<Rightarrow> config \<Rightarrow> bool" for W :: world where
  reach_init:
    "reach W (OBSERVE, initial_state W repo url user_prompt m_vlm m_router m_prompt ms mr, [Goto url])"
| reach_step:
    "reach W (n, s, tr) \<Longrightarrow> n \<noteq> END \<Longrightarrow> step W (n, s, tr) = Inr c' \<Longrightarrow> reach W c'"

section \<open>Invariants of a run\<close>

definition valid_bbox :: "AgentState \<Rightarrow> bool" where
  "valid_bbox s = (case last_bbox s of None \<Rightarrow> True | Some b \<Rightarrow> length b = 4)"

text \<open>
  An action on which \<^verbatim>\<open>act_node\<close> leaves \<^verbatim>\<open>pending_candidates\<close> alone: a click with a
  bbox goes to the grid exploration, and an action with no candidate at all skips the
  filter.
\<close>

definition safe_action :: "Action \<Rightarrow> bool" where
  "safe_action a = ((act_type a = ''click'' \<and> truthy (act_bbox a)) \<or> collect_candidates a = [])"

definition on_search_url :: "AgentState \<Rightarrow> bool" where
  "on_search_url s = (truthy (current_url s) \<and> contains (the (current_url s)) ''/search'')"

definition on_login_url :: "AgentState \<Rightarrow> bool" where
  "on_login_url s = (truthy (current_url s) \<and> contains (the (current_url s)) ''/login'')"

definition run_inv :: "config \<Rightarrow> bool" where
  "run_inv c =
     (case c of (n, s, tr) \<Rightarrow>
        (n \<noteq> END \<longrightarrow> extracted_release s = None)
      \<and> (n \<noteq> ACT \<longrightarrow> valid_bbox s)
      \<and> (\<forall>p \<in> set (pending_candidates s). pc_bbox p \<noteq> [])
      \<and> (n = ACT \<and> stage s = SEARCH_RESULTS \<and> pending_candidates s \<noteq> []
           \<longrightarrow> safe_action (current_action s))
      \<and> (n \<in> {ACT, VALIDATE} \<and> stage s = HOME \<longrightarrow> \<not> on_search_url s))"

text \<open>The browser call \<^verbatim>\<open>_execute_action\<close> makes for the recovery action of a retry count.\<close>

definition recovery_event :: "int \<Rightarrow> event" where
  "recovery_event retries =
     (if retries mod 3 = 0 then Scroll ''down'' 500
      else if retries mod 3 = 1 then Scroll ''up'' 400
      else Back)"

text \<open>
  A stuck detection in \<^verbatim>\<open>validate_node\<close> followed by \<^verbatim>\<open>act_node\<close> on the recovery action:
  the histories hold the observation once more, the retry and step counters are one
  higher, and the recovery action is the last action.
\<close>

definition after_recovery :: "world \<Rightarrow> AgentState \<Rightarrow> AgentState" where
  "after_recovery W s =
     (record_observation (image_hash W (the (last_png_bytes s))) s)
       \<lparr>retry_count := retry_count s + 1,
         last_action := Some (recovery_for (retry_count s)),
         step_count := step_count s + 1,
         next_node := Some VALIDATE\<rparr>"

text \<open>
  A state in which \<^verbatim>\<open>validate_node\<close> detects that the agent is stuck and goes on to the
  recovery action: the state validates, has a screenshot, is not on a login page, is
  under the step ceiling, and the stuck condition holds on its histories once the
  hash and the URL are pushed.
\<close>

definition detects :: "world \<Rightarrow> AgentState \<Rightarrow> bool" where
  "detects W s =
     (valid_bbox s \<and> truthy (last_png_bytes s) \<and> \<not> on_login_url s
      \<and> step_count s < max_steps s
      \<and> stuck W (record_observation (image_hash W (the (last_png_bytes s))) s)
               (image_hash W (the (last_png_bytes s))))"

section \<open>Concrete worlds and inputs\<close>

text \<open>
  A world whose page never changes: the same URL, title, screenshot and viewport
  after every call, and the same payload from every vision call. Float products are
  exact and the validation library converts nothing.
\<close>

definition exact_trunc_mul :: "rat \<Rightarrow> int \<Rightarrow> int" where
  "exact_trunc_mul f w = (let q = f * of_int w in if 0 \<le> q then \<lfloor>q\<rfloor> else \<lceil>q\<rceil>)"

definition fixed_world :: "string \<Rightarrow> error + json \<Rightarrow> world" where
  "fixed_world url payload =
     \<lparr>browser_url = (\<lambda>tr. url),
      browser_title = (\<lambda>tr. ''GitHub''),
      browser_screenshot = (\<lambda>tr. ''PNG''),
      viewport_size = (\<lambda>tr. Some (1280, 720)),
      call_json = (\<lambda>tr. payload),
      image_size = (\<lambda>png. (1280, 720)),
      image_hash = (\<lambda>png. ''ffffffffffffffff''),
      trunc_mul = exact_trunc_mul,
      lax_int = (\<lambda>j. None),
      lax_float = (\<lambda>j. None),
      repeat_threshold = 3,
      tracer_run_dir = ''runs/t0'',
      tracer_save_image = (\<lambda>n png. ''runs/t0/step.png'')\<rparr>"

text \<open>The payload \<^verbatim>\<open>{"type": "bbox", "coords": [10, 10, 50, 30]}\<close>.\<close>

definition bbox_payload :: json where
  "bbox_payload = JDict [(''type'', JStr ''bbox''), (''coords'', JList [JInt 10, JInt 10, JInt 50, JInt 30])]"

text \<open>The same payload with a \<^verbatim>\<open>reason\<close>.\<close>

definition bbox_payload_with_reason :: "string \<Rightarrow> json" where
  "bbox_payload_with_reason r =
     JDict [(''type'', JStr ''bbox''), (''reason'', JStr r),
            (''coords'', JList [JInt 10, JInt 10, JInt 50, JInt 30])]"

text \<open>The payload \<^verbatim>\<open>{"type": "wait", "reason": "nothing to do"}\<close>.\<close>

definition wait_payload :: json where
  "wait_payload = JDict [(''type'', JStr ''wait''), (''reason'', JStr ''nothing to do'')]"

definition wait_action :: Action where
  "wait_action = plain_action ''wait'' ''nothing to do''"

text \<open>
  A run for the repository \<^verbatim>\<open>openclaw/openclaw\<close> from a start URL, with the step and
  retry ceilings given on the command line.
\<close>

definition start_state :: "world \<Rightarrow> string \<Rightarrow> int \<Rightarrow> int \<Rightarrow> AgentState" where
  "start_state W url ms mr =
     initial_state W ''openclaw/openclaw'' url None ''gpt-5-mini'' ''gpt-5-nano'' ''gpt-5-mini'' ms mr"

definition start_config :: "world \<Rightarrow> string \<Rightarrow> int \<Rightarrow> int \<Rightarrow> config" where
  "start_config W url ms mr = (OBSERVE, start_state W url ms mr, [Goto url])"

text \<open>
  The state at \<open>VALIDATE\<close> after one cycle (observe, decide, act) on a page at \<open>url\<close>
  that never changes, the vision model answering \<^verbatim>\<open>wait\<close>, with a step ceiling of 1:
  the step counter has reached the ceiling.
\<close>

definition ceiling_state :: "string \<Rightarrow> AgentState" where
  "ceiling_state url =
     \<lparr>target_repo = ''openclaw/openclaw'', start_url = url, prompt = None,
      vlm_model = Some ''gpt-5-mini'', router_model = Some ''gpt-5-nano'',
      prompt_model = Some ''gpt-5-mini'',
      current_url = Some url, page_title = Some ''GitHub'', last_png_bytes = Some ''PNG'',
      last_png_bytes_raw = Some ''PNG'', last_screenshot_path = Some ''runs/t0/step.png'',
      step_count = 1, retry_count = 0, max_steps = 1, max_retries_per_stage = 3,
      last_urls = [], last_screenshot_hashes = [], stage = HOME,
      last_action = Some wait_action, last_bbox = None, refine_level = 0,
      pending_candidates = [], extracted_release = None, run_dir = Some ''runs/t0'',
      next_node = Some VALIDATE\<rparr>"

definition ceiling_trace :: "string \<Rightarrow> event list" where
  "ceiling_trace url =
     [WaitForIdle,
      GetAction ''PNG'' ''Find the search bar and search for openclaw/openclaw.'' ''HOME'',
      Observe, Goto url]"

definition home_url :: string where "home_url = ''https://github.com''"

definition search_url :: string where "search_url = ''https://github.com/search?q=openclaw''"

definition repo_url :: string where "repo_url = ''https://github.com/openclaw/openclaw''"

definition hash_f :: string where "hash_f = ''ffffffffffffffff''"

text \<open>The subgoals of the stages \<^verbatim>\<open>HOME\<close> and \<^verbatim>\<open>SEARCH_RESULTS\<close> for the repository.\<close>

definition home_prompt :: string where
  "home_prompt = ''Find the search bar and search for openclaw/openclaw.''"

definition search_prompt :: string where
  "search_prompt =
     ''You are on GitHub search results. Find the FIRST result card for '' @ [CHR 0x22]
       @ ''openclaw/openclaw'' @ [CHR 0x22]
       @ '' and return a coarse bbox around the entire card (rounded rectangle containing avatar, title, description). Do NOT return a tight link bbox.''"

text \<open>
  The state after the first \<open>OBSERVE\<close> of a run started at \<open>start\<close>, the page at
  \<open>url\<close>, in a world made from \<open>fixed_world\<close>.
\<close>

definition observed :: "string \<Rightarrow> string \<Rightarrow> int \<Rightarrow> int \<Rightarrow> AgentState" where
  "observed start url ms mr =
     \<lparr>target_repo = ''openclaw/openclaw'', start_url = start, prompt = None,
      vlm_model = Some ''gpt-5-mini'', router_model = Some ''gpt-5-nano'',
      prompt_model = Some ''gpt-5-mini'',
      current_url = Some url, page_title = Some ''GitHub'', last_png_bytes = Some ''PNG'',
      last_png_bytes_raw = Some ''PNG'', last_screenshot_path = Some ''runs/t0/step.png'',
      step_count = 0, retry_count = 0, max_steps = ms, max_retries_per_stage = mr,
      last_urls = [], last_screenshot_hashes = [], stage = HOME,
      last_action = None, last_bbox = None, refine_level = 0,
      pending_candidates = [], extracted_release = None, run_dir = Some ''runs/t0'',
      next_node = Some DECIDE\<rparr>"

text \<open>
  A world in which a click on the result card opens the repository page, and the
  page is the search page again at every other moment.
\<close>

definition card_payload :: "int list \<Rightarrow> json" where
  "card_payload b =
     JDict [(''type'', JStr ''click''), (''reason'', JStr ''first result card''),
            (''bbox'', JList (map JInt b))]"

definition card_click :: "int list \<Rightarrow> Action" where
  "card_click b = (plain_action ''click'' ''first result card'')\<lparr>act_bbox := Some b\<rparr>"

definition bounce_world :: world where
  "bounce_world =
     (fixed_world search_url (Inr (card_payload [300, 200, 700, 300])))
       \<lparr>browser_url := (\<lambda>tr. case tr of
            ReadUrl # ClickPoint x y # rest \<Rightarrow> repo_url
          | _ \<Rightarrow> search_url)\<rparr>"

definition bounced_state :: AgentState where
  "bounced_state =
     (observed search_url search_url 25 3)
       \<lparr>step_count := 1, last_urls := [search_url], last_screenshot_hashes := [hash_f],
         stage := REPO, last_action := Some (card_click [300, 200, 700, 300]),
         last_bbox := Some [300, 200, 700, 300]\<rparr>"

definition bounced_trace :: "event list" where
  "bounced_trace =
     [Observe, ReadUrl, ClickPoint 400 233, ReadUrl,
      GetAction ''PNG'' search_prompt ''SEARCH_RESULTS'', Observe, Goto search_url]"
















text \<open>
  A run on a home page that never changes, the vision model answering \<^verbatim>\<open>wait\<close>: the
  state at the third \<open>VALIDATE\<close>, with the step ceiling \<open>ms\<close>.
\<close>

definition idle_state :: "int \<Rightarrow> AgentState" where
  "idle_state ms =
     (observed home_url home_url ms 3)
       \<lparr>step_count := 3, last_urls := [home_url, home_url],
         last_screenshot_hashes := [hash_f, hash_f], last_action := Some wait_action,
         next_node := Some VALIDATE\<rparr>"

definition idle_trace :: "event list" where
  "idle_trace =
     [WaitForIdle, GetAction ''PNG'' home_prompt ''HOME'', Observe,
      WaitForIdle, GetAction ''PNG'' home_prompt ''HOME'', Observe,
      WaitForIdle, GetAction ''PNG'' home_prompt ''HOME'', Observe, Goto home_url]"

section \<open>Properties of the geometric gate and the grid\<close>

lemma grid_points_length: "length (grid_points tm x1 y1 x2 y2 xs ys) \<le> 10"
  by (simp add: grid_points_def Let_def)

lemma grid_points_member:
  assumes "p \<in> set (grid_points tm x1 y1 x2 y2 xs ys)"
  shows "\<exists>a b. p = (min (max (x1 + a) (x1 + 4)) (x2 - 4), min (max (y1 + b) (y1 + 4)) (y2 - 4))"
proof -
  from assms have "p \<in> set (concat (map (\<lambda>fy. map (\<lambda>fx.
                     (min (max (x1 + tm fx (max 1 (x2 - x1))) (x1 + 4)) (x2 - 4),
                      min (max (y1 + tm fy (max 1 (y2 - y1))) (y1 + 4)) (y2 - 4)))
                    (map (\<lambda>i. (of_nat i + 1) / (of_nat xs + 1)) [0..<xs]))
                    (map (\<lambda>i. (of_nat i + 1) / (of_nat ys + 1)) [0..<ys])))"
    unfolding grid_points_def Let_def by (rule in_set_takeD)
  then show ?thesis by auto
qed



text \<open>
  C8. For every bounding region whose width or height is at most 20 pixels, the grid
  exploration reports failure at once: it returns false and the trace of browser
  calls is the one it was given, so no sampled point is clicked.
\<close>

theorem explore_small_region_reports_failure:
  assumes "x2 - x1 \<le> 20 \<or> y2 - y1 \<le> 20"
  shows "explore_click_points_multi W tr (x1, y1, x2, y2) repo = (False, tr)
         \<and> clicks (snd (explore_click_points_multi W tr (x1, y1, x2, y2) repo)) = clicks tr"
proof -
  obtain w h where wh: "(case viewport_size W tr of None \<Rightarrow> (1280, 720) | Some v \<Rightarrow> v) = (w, h)"
    by (cases "case viewport_size W tr of None \<Rightarrow> (1280 :: int, 720 :: int) | Some v \<Rightarrow> v")
  have "max 220 (min x2 w) \<le> max 220 (min x1 w) + 20 \<or> max 0 (min y2 h) \<le> max 0 (min y1 h) + 20"
    using assms by (auto simp: max_def min_def)
  then have "explore_click_points_multi W tr (x1, y1, x2, y2) repo = (False, tr)"
    unfolding explore_click_points_multi_def clamp_bbox_to_viewport_def
    by (simp add: wh)
  then show ?thesis by simp
qed

theorem explore_small_region_reports_failure_witness:
  "((110 :: int) - 100 \<le> 20 \<or> (400 :: int) - 100 \<le> 20)
   \<and> explore_click_points_multi (fixed_world ''https://github.com/search?q=x'' (Inl (RuntimeError ''down'')))
        [Goto ''https://github.com''] (100, 100, 110, 400) ''openclaw/openclaw''
       = (False, [Goto ''https://github.com''])"
  using explore_small_region_reports_failure
    [of 110 100 400 100 "fixed_world ''https://github.com/search?q=x'' (Inl (RuntimeError ''down''))"
        "[Goto ''https://github.com'']" "''openclaw/openclaw''"]
  by simp

text \<open>
  C10. For every region of width and height above 20 and every grid dimension (those
  of the fallback, 3 by 2 and 5 by 2, among them), the grid-point generator returns at
  most 10 points, and every point it returns lies inside the region with a margin of 4
  pixels. It holds for every rounding of the float products.
\<close>

theorem grid_points_inside_margin:
  assumes "x2 - x1 > 20" and "y2 - y1 > 20"
  shows "length (grid_points tm x1 y1 x2 y2 xs ys) \<le> 10
         \<and> (\<forall>p \<in> set (grid_points tm x1 y1 x2 y2 xs ys).
               x1 + 4 \<le> fst p \<and> fst p \<le> x2 - 4 \<and> y1 + 4 \<le> snd p \<and> snd p \<le> y2 - 4)"
proof (intro conjI ballI)
  show "length (grid_points tm x1 y1 x2 y2 xs ys) \<le> 10"
    by (rule grid_points_length)
next
  fix p assume "p \<in> set (grid_points tm x1 y1 x2 y2 xs ys)"
  then obtain a b where
    p: "p = (min (max (x1 + a) (x1 + 4)) (x2 - 4), min (max (y1 + b) (y1 + 4)) (y2 - 4))"
    using grid_points_member by blast
  show "x1 + 4 \<le> fst p" using assms p by (simp add: min_def max_def)
  show "fst p \<le> x2 - 4" using assms p by (simp add: min_def max_def)
  show "y1 + 4 \<le> snd p" using assms p by (simp add: min_def max_def)
  show "snd p \<le> y2 - 4" using assms p by (simp add: min_def max_def)
qed

theorem grid_points_inside_margin_witness:
  "(420 :: int) - 220 > 20 \<and> (300 :: int) - 100 > 20
   \<and> grid_points exact_trunc_mul 220 100 420 300 3 2
       = [(270, 166), (320, 166), (370, 166), (270, 233), (320, 233), (370, 233)]
   \<and> length (grid_points exact_trunc_mul 220 100 420 300 5 2) = 10
   \<and> list_all (\<lambda>p. 220 + 4 \<le> fst p \<and> fst p \<le> 420 - 4 \<and> 100 + 4 \<le> snd p \<and> snd p \<le> 300 - 4)
        (grid_points exact_trunc_mul 220 100 420 300 5 2)"
proof -
  have a: "grid_points exact_trunc_mul 220 100 420 300 3 2
       = [(270, 166), (320, 166), (370, 166), (270, 233), (320, 233), (370, 233)]"
    by code_simp
  have b: "length (grid_points exact_trunc_mul 220 100 420 300 5 2) = 10"
    by code_simp
  have c: "(420 :: int) - 220 > 20" "(300 :: int) - 100 > 20" by simp_all
  from grid_points_inside_margin [OF c, of exact_trunc_mul 5 2]
  have "list_all (\<lambda>p. 220 + 4 \<le> fst p \<and> fst p \<le> 420 - 4 \<and> 100 + 4 \<le> snd p \<and> snd p \<le> 300 - 4)
        (grid_points exact_trunc_mul 220 100 420 300 5 2)"
    by (simp add: list_all_iff)
  with a b c show ?thesis by simp
qed

section \<open>Properties of the normalizer\<close>

lemma lower_bbox: "lower ''bbox'' = ''bbox''"
  by (simp add: lower_def lower_char_def)

lemma normalize_bbox_payload:
  "normalize_action_payload bbox_payload =
     Inr (JDict [(''type'', JStr ''click''),
                 (''coords'', JList [JInt 10, JInt 10, JInt 50, JInt 30]),
                 (''bbox'', JList [JInt 10, JInt 10, JInt 50, JInt 30])])"
  by (simp add: bbox_payload_def normalize_action_payload_def norm_type_def norm_coords_def
      norm_bbox_list_def norm_candidates_def norm_expect_def norm_scroll_def norm_key_def
      py_get_def has_key_def lower_bbox)

lemma normalize_bbox_payload_with_reason:
  "normalize_action_payload (bbox_payload_with_reason r) =
     Inr (JDict [(''type'', JStr ''click''), (''reason'', JStr r),
                 (''coords'', JList [JInt 10, JInt 10, JInt 50, JInt 30]),
                 (''bbox'', JList [JInt 10, JInt 10, JInt 50, JInt 30])])"
  by (simp add: bbox_payload_with_reason_def normalize_action_payload_def norm_type_def
      norm_coords_def norm_bbox_list_def norm_candidates_def norm_expect_def norm_scroll_def
      norm_key_def py_get_def has_key_def lower_bbox)

text \<open>
  C4, as stated, fails: the payload \<^verbatim>\<open>{"type": "bbox", "coords": [10, 10, 50, 30]}\<close> has
  no \<^verbatim>\<open>reason\<close>, a field the \<^verbatim>\<open>Action\<close> schema requires, so \<^verbatim>\<open>_call_action\<close> raises.
\<close>

theorem call_action_bbox_payload_raises:
  "call_action (fixed_world ''https://github.com'' (Inr bbox_payload)) (Inr bbox_payload)
     = Inl (RuntimeError ''Invalid Action JSON'')"
  by (simp add: call_action_def normalize_bbox_payload Action_model_validate_def v_action_def
      v_req_def v_opt_def v_str_def)

text \<open>
  C4, amended. The normalizer rewrites the payload into a dictionary with type
  \<^verbatim>\<open>click\<close> and bbox \<^verbatim>\<open>[10, 10, 50, 30]\<close>. With a \<^verbatim>\<open>reason\<close> string beside the two
  keys, \<^verbatim>\<open>_call_action\<close> returns an \<^verbatim>\<open>Action\<close> of type \<^verbatim>\<open>click\<close> with that bbox, whatever
  the validation library's conversions are.
\<close>

theorem call_action_bbox_payload_with_reason:
  "(\<exists>d. normalize_action_payload bbox_payload = Inr (JDict d)
        \<and> py_get d ''type'' = JStr ''click''
        \<and> py_get d ''bbox'' = JList [JInt 10, JInt 10, JInt 50, JInt 30])
   \<and> call_action W (Inr (bbox_payload_with_reason r))
       = Inr ((plain_action ''click'' r)\<lparr>act_bbox := Some [10, 10, 50, 30]\<rparr>)"
proof
  show "\<exists>d. normalize_action_payload bbox_payload = Inr (JDict d)
        \<and> py_get d ''type'' = JStr ''click''
        \<and> py_get d ''bbox'' = JList [JInt 10, JInt 10, JInt 50, JInt 30]"
    by (simp add: normalize_bbox_payload py_get_def)
  show "call_action W (Inr (bbox_payload_with_reason r))
       = Inr ((plain_action ''click'' r)\<lparr>act_bbox := Some [10, 10, 50, 30]\<rparr>)"
    by (simp add: call_action_def normalize_bbox_payload_with_reason Action_model_validate_def
        v_action_def v_req_def v_opt_def v_str_def v_int_list_def v_int_def plain_action_def)
qed

theorem call_action_bbox_payload_with_reason_witness:
  "call_action (fixed_world ''https://github.com'' (Inr (bbox_payload_with_reason ''result card'')))
     (Inr (bbox_payload_with_reason ''result card''))
   = Inr \<lparr>act_type = ''click'', act_reason = ''result card'', act_bbox = Some [10, 10, 50, 30],
          act_text = None, act_key = None, act_scroll = None, act_expect = None,
          act_candidates = None\<rparr>"
  using call_action_bbox_payload_with_reason
    [of "fixed_world ''https://github.com'' (Inr (bbox_payload_with_reason ''result card''))"
        "''result card''"]
  by (simp add: plain_action_def)

section \<open>What each node returns\<close>

lemma AgentState_model_validate_Inr:
  "AgentState_model_validate s = Inr s' \<longleftrightarrow> s' = s \<and> valid_bbox s"
  by (auto simp: AgentState_model_validate_def valid_bbox_def split: option.splits)

lemma record_observation_fields [simp]:
  "stage (record_observation h s) = stage s"
  "retry_count (record_observation h s) = retry_count s"
  "step_count (record_observation h s) = step_count s"
  "max_steps (record_observation h s) = max_steps s"
  "max_retries_per_stage (record_observation h s) = max_retries_per_stage s"
  "current_url (record_observation h s) = current_url s"
  "pending_candidates (record_observation h s) = pending_candidates s"
  "extracted_release (record_observation h s) = extracted_release s"
  "last_bbox (record_observation h s) = last_bbox s"
  "last_action (record_observation h s) = last_action s"
  "last_png_bytes (record_observation h s) = last_png_bytes s"
  "refine_level (record_observation h s) = refine_level s"
  "target_repo (record_observation h s) = target_repo s"
  by (simp_all add: record_observation_def push_hash_def push_url_def Let_def)

lemma assess_state: "snd (snd (assess W s png)) = record_observation (image_hash W png) s"
  by (simp add: assess_def Let_def)

lemma assess_hash: "fst (snd (assess W s png)) = image_hash W png"
  by (simp add: assess_def Let_def)

lemma assess_cases:
  "fst (assess W s png) =
     (if step_count s \<ge> max_steps s
      then empty_result\<lparr>should_stop := True, vr_reason := Some ''max_steps''\<rparr>
      else if stuck W (record_observation (image_hash W png) s) (image_hash W png)
      then empty_result\<lparr>recovery_action := Some (recovery_for (retry_count s)), vr_reason := Some ''stuck''\<rparr>
      else stage_progress (record_observation (image_hash W png) s))"
  by (simp add: assess_def Let_def)

lemma stage_progress_new_stage:
  "new_stage (stage_progress s) = Some st \<Longrightarrow> st \<noteq> stage s \<and> stage s \<in> {HOME, SEARCH_RESULTS, REPO} \<and> st \<in> {SEARCH_RESULTS, REPO, RELEASES}"
  by (auto simp: stage_progress_def empty_result_def Let_def split: if_splits)

lemma stage_progress_flags [simp]:
  "should_stop (stage_progress s) = False"
  "recovery_action (stage_progress s) = None"
  by (auto simp: stage_progress_def empty_result_def Let_def)

lemma validate_node_unfold:
  assumes "valid_bbox s" and "truthy (last_png_bytes s)"
  shows "validate_node W s tr =
           validate_outcome (fst (assess W s (the (last_png_bytes s))))
             (record_observation (image_hash W (the (last_png_bytes s))) s) tr"
  using assms
  by (simp add: validate_node_def AgentState_model_validate_Inr [THEN iffD2] case_prod_beta assess_state)

lemma validate_node_no_png:
  assumes "valid_bbox s" and "\<not> truthy (last_png_bytes s)"
  shows "validate_node W s tr = Inr (s\<lparr>next_node := Some OBSERVE\<rparr>, tr)"
  using assms
  by (simp add: validate_node_def AgentState_model_validate_Inr [THEN iffD2])

lemma validate_node_invalid:
  assumes "\<not> valid_bbox s"
  shows "validate_node W s tr = Inl ValidationError"
  using assms
  by (auto simp: validate_node_def AgentState_model_validate_def valid_bbox_def split: option.splits)

lemma finish_act_Inr:
  "finish_act a s tr = Inr (s', tr') \<Longrightarrow> s' = s\<lparr>step_count := step_count s + 1, next_node := Some VALIDATE\<rparr>"
  by (auto simp: finish_act_def split: sum.splits)

lemma act_explore_Inr:
  assumes "act_explore W s a tr = Inr (s', tr')"
  shows "s' = s\<lparr>step_count := step_count s + 1, next_node := Some VALIDATE\<rparr>
       \<or> s' = s\<lparr>stage := REPO, step_count := step_count s + 1, next_node := Some VALIDATE\<rparr>"
  using assms unfolding act_explore_def Let_def
  by (auto split: option.splits prod.splits if_splits)

lemma act_filter_Inr:
  assumes "act_filter W s a tr = Inr (s', tr')"
  shows "s' = s\<lparr>step_count := step_count s + 1, next_node := Some VALIDATE\<rparr>
       \<or> s' = s\<lparr>retry_count := retry_count s + 1, next_node := Some VALIDATE\<rparr>
       \<or> s' = s\<lparr>retry_count := retry_count s + 1, stage := DONE, next_node := Some END\<rparr>
       \<or> (\<exists>chosen. collect_candidates a \<noteq> [] \<and> act_type a \<in> {''click'', ''click_candidates''}
            \<and> s' = s\<lparr>pending_candidates := filter (\<lambda>c. pc_bbox c \<noteq> chosen) (collect_candidates a),
                     step_count := step_count s + 1, next_node := Some VALIDATE\<rparr>)"
proof -
  obtain w h where wh: "image_size W (the (last_png_bytes_raw s)) = (w, h)"
    by (cases "image_size W (the (last_png_bytes_raw s))")
  show ?thesis
  proof (cases "collect_candidates a \<noteq> [] \<and> act_type a \<in> {''click'', ''click_candidates''}")
    case False
    then have "finish_act a s tr = Inr (s', tr')"
      using assms unfolding act_filter_def wh Let_def by (simp split: if_splits)
    then show ?thesis by (auto dest: finish_act_Inr)
  next
    case True
    show ?thesis
    proof (cases "choose_candidate (collect_candidates a) w h")
      case (Inl e)
      then show ?thesis using assms True unfolding act_filter_def wh Let_def by simp
    next
      case (Inr c)
      show ?thesis
      proof (cases c)
        case None
        then show ?thesis using assms True Inr unfolding act_filter_def wh Let_def
          by (auto split: if_splits)
      next
        case (Some chosen)
        then have "finish_act (a\<lparr>act_bbox := Some chosen, act_type := ''click''\<rparr>)
                     (s\<lparr>pending_candidates := filter (\<lambda>c. pc_bbox c \<noteq> chosen) (collect_candidates a)\<rparr>) tr
                   = Inr (s', tr')"
          using assms True Inr unfolding act_filter_def wh Let_def by simp
        from finish_act_Inr [OF this] True show ?thesis by auto
      qed
    qed
  qed
qed

lemma act_node_Inr:
  assumes "act_node W s tr = Inr (s', tr')"
  shows "valid_bbox s \<and>
         (s' = s\<lparr>step_count := step_count s + 1, next_node := Some VALIDATE\<rparr>
        \<or> (stage s = SEARCH_RESULTS
             \<and> s' = s\<lparr>stage := REPO, step_count := step_count s + 1, next_node := Some VALIDATE\<rparr>)
        \<or> (stage s = SEARCH_RESULTS
             \<and> s' = s\<lparr>retry_count := retry_count s + 1, next_node := Some VALIDATE\<rparr>)
        \<or> (stage s = SEARCH_RESULTS
             \<and> s' = s\<lparr>retry_count := retry_count s + 1, stage := DONE, next_node := Some END\<rparr>)
        \<or> (stage s = SEARCH_RESULTS \<and> \<not> safe_action (current_action s)
             \<and> (\<exists>chosen. s' = s\<lparr>pending_candidates :=
                                    filter (\<lambda>c. pc_bbox c \<noteq> chosen) (collect_candidates (current_action s)),
                                  step_count := step_count s + 1, next_node := Some VALIDATE\<rparr>)))"
proof -
  have v: "valid_bbox s" "AgentState_model_validate s = Inr s"
    using assms by (auto simp: act_node_def AgentState_model_validate_def valid_bbox_def split: option.splits if_splits)
  let ?a = "current_action s"
  show ?thesis
  proof (cases "stage s = SEARCH_RESULTS \<and> act_type ?a = ''click'' \<and> truthy (act_bbox ?a)")
    case True
    then have "act_explore W s ?a tr = Inr (s', tr')"
      using assms v by (simp add: act_node_def Let_def)
    from act_explore_Inr [OF this] True v show ?thesis by auto
  next
    case False
    note nf = False
    show ?thesis
    proof (cases "stage s = SEARCH_RESULTS \<and> truthy (last_png_bytes_raw s)")
      case True
      then have "act_filter W s ?a tr = Inr (s', tr')"
        using assms v nf by (auto simp: act_node_def Let_def split: if_splits)
      from act_filter_Inr [OF this] True nf v show ?thesis
        by (auto simp: safe_action_def)
    next
      case False
      then have "finish_act ?a s tr = Inr (s', tr')"
        using assms v nf by (auto simp: act_node_def Let_def split: if_splits)
      from finish_act_Inr [OF this] v show ?thesis by simp
    qed
  qed
qed

lemma choose_action_pending:
  "pending_candidates s1 \<noteq> [] \<Longrightarrow> stage s1 = SEARCH_RESULTS \<Longrightarrow>
   choose_action W s1 tr = (Inr (pending_action (hd (pending_candidates s1))), tr)"
  by (simp add: choose_action_def Let_def)

lemma force_search_stage_fields [simp]:
  "retry_count (force_search_stage s) = retry_count s"
  "step_count (force_search_stage s) = step_count s"
  "max_steps (force_search_stage s) = max_steps s"
  "max_retries_per_stage (force_search_stage s) = max_retries_per_stage s"
  "current_url (force_search_stage s) = current_url s"
  "pending_candidates (force_search_stage s) = pending_candidates s"
  "extracted_release (force_search_stage s) = extracted_release s"
  "last_bbox (force_search_stage s) = last_bbox s"
  "last_action (force_search_stage s) = last_action s"
  "last_png_bytes (force_search_stage s) = last_png_bytes s"
  "stage (force_search_stage s) = (if on_search_url s then SEARCH_RESULTS else stage s)"
  by (simp_all add: force_search_stage_def on_search_url_def)

lemma decide_node_Inr:
  assumes "decide_node W s tr = Inr (s', tr')"
  shows "valid_bbox s \<and>
         (\<exists>a. choose_action W (force_search_stage s) tr = (Inr a, tr')
            \<and> s' = (force_search_stage s)\<lparr>last_action := Some a,
                     last_bbox := (if truthy (act_bbox a) then act_bbox a else last_bbox s),
                     next_node := Some ACT\<rparr>)"
proof -
  have v: "valid_bbox s" "AgentState_model_validate s = Inr s"
    using assms by (auto simp: decide_node_def AgentState_model_validate_def valid_bbox_def split: option.splits if_splits)
  obtain r t where c: "choose_action W (force_search_stage s) tr = (r, t)"
    by (cases "choose_action W (force_search_stage s) tr")
  show ?thesis
  proof (cases r)
    case (Inl e)
    then show ?thesis using assms v c by (simp add: decide_node_def Let_def)
  next
    case (Inr a)
    then show ?thesis using assms v c
      by (auto simp: decide_node_def Let_def split: if_splits)
  qed
qed

lemma observe_node_Inr:
  assumes "observe_node W s tr = Inr (s', tr')"
  shows "valid_bbox s \<and> tr' = Observe # tr \<and> stage s' = stage s \<and> retry_count s' = retry_count s
       \<and> pending_candidates s' = pending_candidates s \<and> extracted_release s' = extracted_release s
       \<and> last_bbox s' = last_bbox s \<and> last_action s' = last_action s \<and> step_count s' = step_count s
       \<and> next_node s' = Some DECIDE"
  using assms unfolding observe_node_def Let_def
  by (auto simp: AgentState_model_validate_def valid_bbox_def split: option.splits if_splits)

lemma extract_node_Inr:
  assumes "extract_node W s tr = Inr (s', tr')"
  shows "valid_bbox s \<and>
         (s' = s\<lparr>next_node := Some OBSERVE\<rparr>
        \<or> (\<exists>rel. s' = s\<lparr>extracted_release := Some rel, stage := EXTRACTED, next_node := Some END\<rparr>))"
  using assms unfolding extract_node_def Let_def
  by (auto simp: AgentState_model_validate_def valid_bbox_def split: option.splits if_splits sum.splits prod.splits)

lemma empty_result_fields [simp]:
  "new_stage empty_result = None" "recovery_action empty_result = None"
  "should_extract empty_result = False" "should_stop empty_result = False"
  by (simp_all add: empty_result_def)

lemma assess_should_stop:
  "should_stop (fst (assess W s png)) = (step_count s \<ge> max_steps s)"
  by (simp add: assess_cases)

lemma assess_new_stage:
  assumes "new_stage (fst (assess W s png)) = Some st"
  shows "st \<noteq> stage s \<and> st \<in> {SEARCH_RESULTS, REPO, RELEASES}
       \<and> stage s \<in> {HOME, SEARCH_RESULTS, REPO}
       \<and> \<not> should_stop (fst (assess W s png)) \<and> recovery_action (fst (assess W s png)) = None
       \<and> new_stage (stage_progress (record_observation (image_hash W png) s)) = Some st"
  using assms stage_progress_new_stage [of "record_observation (image_hash W png) s" st]
  by (auto simp: assess_cases split: if_splits)

lemma assess_recovery:
  assumes "recovery_action (fst (assess W s png)) = Some ra"
  shows "ra = recovery_for (retry_count s) \<and> new_stage (fst (assess W s png)) = None
       \<and> \<not> should_stop (fst (assess W s png)) \<and> step_count s < max_steps s
       \<and> stuck W (record_observation (image_hash W png) s) (image_hash W png)"
  using assms by (auto simp: assess_cases split: if_splits)

lemma apply_transition_fields [simp]:
  "extracted_release (apply_transition r s) = extracted_release s"
  "last_bbox (apply_transition r s) = last_bbox s"
  "current_url (apply_transition r s) = current_url s"
  "last_action (apply_transition r s) = last_action s"
  "step_count (apply_transition r s) = step_count s"
  "max_steps (apply_transition r s) = max_steps s"
  "max_retries_per_stage (apply_transition r s) = max_retries_per_stage s"
  "last_urls (apply_transition r s) = last_urls s"
  "last_png_bytes (apply_transition r s) = last_png_bytes s"
  "last_screenshot_hashes (apply_transition r s) = last_screenshot_hashes s"
  by (simp_all add: apply_transition_def split: option.splits)

lemma apply_transition_None [simp]: "new_stage r = None \<Longrightarrow> apply_transition r s = s"
  by (simp add: apply_transition_def)

lemma apply_transition_Some:
  "new_stage r = Some st \<Longrightarrow>
   apply_transition r s = s\<lparr>stage := st, retry_count := 0, refine_level := 0, pending_candidates := []\<rparr>"
  by (simp add: apply_transition_def)

lemma validate_outcome_frame:
  assumes "validate_outcome r s1 tr = Inr (s', tr')"
  shows "tr' = tr \<and> extracted_release s' = extracted_release s1 \<and> last_bbox s' = last_bbox s1
       \<and> current_url s' = current_url s1 \<and> max_steps s' = max_steps s1
       \<and> max_retries_per_stage s' = max_retries_per_stage s1
       \<and> last_png_bytes s' = last_png_bytes s1 \<and> last_urls s' = last_urls s1
       \<and> last_screenshot_hashes s' = last_screenshot_hashes s1
       \<and> step_count s' = step_count s1"
  using assms unfolding validate_outcome_def Let_def
  by (auto split: if_splits option.splits list.splits)

lemma validate_outcome_pending:
  assumes "validate_outcome r s1 tr = Inr (s', tr')"
  shows "pending_candidates s' = pending_candidates s1
       \<or> (new_stage r \<noteq> None \<and> \<not> (truthy (current_url s1) \<and> contains (the (current_url s1)) ''/login'')
           \<and> pending_candidates s' = [])
       \<or> (new_stage r = None \<and> \<not> should_stop r \<and> recovery_action r = None
           \<and> failed_navigation s1 \<and> pending_candidates s1 \<noteq> []
           \<and> pending_candidates s' = tl (pending_candidates s1)
           \<and> last_action s' = Some (next_candidate_action (hd (pending_candidates s1)))
           \<and> next_node s' = Some ACT)"
proof (cases "new_stage r")
  case None
  then show ?thesis using assms unfolding validate_outcome_def Let_def
    by (auto split: if_splits option.splits list.splits)
next
  case (Some st)
  then show ?thesis using assms unfolding validate_outcome_def Let_def
    by (auto simp: apply_transition_Some split: if_splits option.splits list.splits)
qed

lemma validate_outcome_to_act:
  assumes "validate_outcome r s1 tr = Inr (s', tr')" and "next_node s' = Some ACT"
  shows "(\<exists>ra. recovery_action r = Some ra \<and> last_action s' = Some ra)
       \<or> (pending_candidates s1 \<noteq> []
           \<and> last_action s' = Some (next_candidate_action (hd (pending_candidates s1))))"
proof (cases "new_stage r")
  case None
  then show ?thesis using assms unfolding validate_outcome_def Let_def
    by (auto split: if_splits option.splits list.splits)
next
  case (Some st)
  then show ?thesis using assms unfolding validate_outcome_def Let_def
    by (auto simp: apply_transition_Some split: if_splits option.splits list.splits)
qed

lemma validate_outcome_stage:
  assumes "validate_outcome r s1 tr = Inr (s', tr')"
  shows "stage s' = stage s1 \<or> stage s' = DONE \<or> new_stage r = Some (stage s')"
proof (cases "new_stage r")
  case None
  then show ?thesis using assms unfolding validate_outcome_def Let_def
    by (auto split: if_splits option.splits list.splits)
next
  case (Some st)
  then show ?thesis using assms unfolding validate_outcome_def Let_def
    by (auto simp: apply_transition_Some split: if_splits option.splits list.splits)
qed

lemma validate_node_Inr:
  assumes "validate_node W s tr = Inr (s', tr')"
  shows "valid_bbox s \<and>
         ((\<not> truthy (last_png_bytes s) \<and> s' = s\<lparr>next_node := Some OBSERVE\<rparr> \<and> tr' = tr)
        \<or> (truthy (last_png_bytes s)
            \<and> validate_outcome (fst (assess W s (the (last_png_bytes s))))
                 (record_observation (image_hash W (the (last_png_bytes s))) s) tr = Inr (s', tr')))"
proof (cases "valid_bbox s")
  case False
  then show ?thesis using assms by (simp add: validate_node_invalid)
next
  case True
  then show ?thesis using assms
    by (cases "truthy (last_png_bytes s)") (auto simp: validate_node_unfold validate_node_no_png)
qed

lemma collect_candidates_bbox:
  "c \<in> set (collect_candidates a) \<Longrightarrow> pc_bbox c \<noteq> []"
  by (auto simp: collect_candidates_def truthy_def split: option.splits if_splits)

lemma safe_recovery_for: "safe_action (recovery_for k)"
  by (simp add: safe_action_def recovery_for_def collect_candidates_def scroll_down_action_def
      scroll_up_action_def back_action_def plain_action_def truthy_def Let_def)

lemma safe_next_candidate: "pc_bbox c \<noteq> [] \<Longrightarrow> safe_action (next_candidate_action c)"
  by (simp add: safe_action_def next_candidate_action_def plain_action_def truthy_def)

lemma safe_pending: "pc_bbox c \<noteq> [] \<Longrightarrow> safe_action (pending_action c)"
  by (simp add: safe_action_def pending_action_def plain_action_def truthy_def)


lemma route_Inr: "route n s = Inr n' \<Longrightarrow> next_node s = Some n' \<and> n' \<in> set (path_map n)"
  by (auto simp: route_def split: option.splits if_splits)

lemma step_Inr:
  assumes "step W (n, s, tr) = Inr (n', s', tr')"
  shows "run_node W n s tr = Inr (s', tr') \<and> next_node s' = Some n' \<and> n' \<in> set (path_map n)"
  using assms by (auto simp: step_def split: sum.splits prod.splits dest: route_Inr)

lemma inv_observe:
  assumes "run_inv (OBSERVE, s, tr)" and "step W (OBSERVE, s, tr) = Inr (n', s', tr')"
  shows "run_inv (n', s', tr')"
proof -
  from step_Inr [OF assms(2)] have r: "observe_node W s tr = Inr (s', tr')" and n: "n' = DECIDE"
    by (auto simp: run_node_def path_map_def)
  from observe_node_Inr [OF r] assms(1) show ?thesis
    by (auto simp: run_inv_def n valid_bbox_def)
qed

lemma inv_decide:
  assumes "run_inv (DECIDE, s, tr)" and "step W (DECIDE, s, tr) = Inr (n', s', tr')"
  shows "run_inv (n', s', tr')"
proof -
  from step_Inr [OF assms(2)] have r: "decide_node W s tr = Inr (s', tr')" and n: "n' = ACT"
    by (auto simp: run_node_def path_map_def)
  from decide_node_Inr [OF r] obtain a where
    c: "choose_action W (force_search_stage s) tr = (Inr a, tr')" and
    s': "s' = (force_search_stage s)\<lparr>last_action := Some a,
                     last_bbox := (if truthy (act_bbox a) then act_bbox a else last_bbox s),
                     next_node := Some ACT\<rparr>"
    by blast
  have p: "\<forall>p \<in> set (pending_candidates s). pc_bbox p \<noteq> []"
    using assms(1) by (simp add: run_inv_def)
  have safe: "stage s' = SEARCH_RESULTS \<Longrightarrow> pending_candidates s' \<noteq> [] \<Longrightarrow> safe_action a"
  proof -
    assume "stage s' = SEARCH_RESULTS" "pending_candidates s' \<noteq> []"
    then have "stage (force_search_stage s) = SEARCH_RESULTS" "pending_candidates (force_search_stage s) \<noteq> []"
      by (simp_all add: s')
    from choose_action_pending [OF this(2) this(1), of W tr] c
    have "a = pending_action (hd (pending_candidates s))" by simp
    moreover have "hd (pending_candidates s) \<in> set (pending_candidates s)"
      using \<open>pending_candidates s' \<noteq> []\<close> by (simp add: s')
    ultimately show "safe_action a" using p safe_pending by blast
  qed
  have home: "stage s' = HOME \<Longrightarrow> \<not> on_search_url s'"
    by (auto simp: s' on_search_url_def split: if_splits)
  show ?thesis
    using assms(1) safe home p unfolding run_inv_def n
    by (auto simp: s' current_action_def)
qed

lemma inv_act:
  assumes "run_inv (ACT, s, tr)" and "step W (ACT, s, tr) = Inr (n', s', tr')"
  shows "run_inv (n', s', tr')"
proof -
  from step_Inr [OF assms(2)] have r: "act_node W s tr = Inr (s', tr')" and n: "n' = VALIDATE"
    and nn: "next_node s' = Some VALIDATE"
    by (auto simp: run_node_def path_map_def)
  have p: "\<forall>p \<in> set (pending_candidates s). pc_bbox p \<noteq> []"
    and e: "extracted_release s = None"
    and h: "stage s = HOME \<Longrightarrow> \<not> on_search_url s"
    using assms(1) by (simp_all add: run_inv_def)
  from act_node_Inr [OF r] have v: "valid_bbox s" by (rule conjunct1)
  have goal: "run_inv (VALIDATE, s', tr')"
    if f: "extracted_release s' = extracted_release s" "last_bbox s' = last_bbox s"
      "current_url s' = current_url s"
      "\<forall>p \<in> set (pending_candidates s'). pc_bbox p \<noteq> []"
      "stage s' = HOME \<Longrightarrow> stage s = HOME"
  proof -
    have "valid_bbox s'" using v f(2) by (simp add: valid_bbox_def)
    moreover have "stage s' = HOME \<longrightarrow> \<not> on_search_url s'"
      using f(3,5) h by (auto simp: on_search_url_def)
    ultimately show ?thesis using e f(1,4) by (simp add: run_inv_def)
  qed
  from act_node_Inr [OF r] have
    "s' = s\<lparr>step_count := step_count s + 1, next_node := Some VALIDATE\<rparr>
        \<or> (stage s = SEARCH_RESULTS
             \<and> s' = s\<lparr>stage := REPO, step_count := step_count s + 1, next_node := Some VALIDATE\<rparr>)
        \<or> (stage s = SEARCH_RESULTS
             \<and> s' = s\<lparr>retry_count := retry_count s + 1, next_node := Some VALIDATE\<rparr>)
        \<or> (stage s = SEARCH_RESULTS
             \<and> s' = s\<lparr>retry_count := retry_count s + 1, stage := DONE, next_node := Some END\<rparr>)
        \<or> (stage s = SEARCH_RESULTS \<and> \<not> safe_action (current_action s)
             \<and> (\<exists>chosen. s' = s\<lparr>pending_candidates :=
                                    filter (\<lambda>c. pc_bbox c \<noteq> chosen) (collect_candidates (current_action s)),
                                  step_count := step_count s + 1, next_node := Some VALIDATE\<rparr>))"
    by (rule conjunct2)
  then show ?thesis unfolding n
  proof (elim disjE conjE exE)
    assume "s' = s\<lparr>step_count := step_count s + 1, next_node := Some VALIDATE\<rparr>"
    then show "run_inv (VALIDATE, s', tr')" using p by (intro goal) simp_all
  next
    assume "s' = s\<lparr>stage := REPO, step_count := step_count s + 1, next_node := Some VALIDATE\<rparr>"
    then show "run_inv (VALIDATE, s', tr')" using p by (intro goal) simp_all
  next
    assume "s' = s\<lparr>retry_count := retry_count s + 1, next_node := Some VALIDATE\<rparr>"
    then show "run_inv (VALIDATE, s', tr')" using p by (intro goal) simp_all
  next
    assume "s' = s\<lparr>retry_count := retry_count s + 1, stage := DONE, next_node := Some END\<rparr>"
    then have "next_node s' = Some END" by simp
    with nn show "run_inv (VALIDATE, s', tr')" by simp
  next
    fix chosen
    assume st: "stage s = SEARCH_RESULTS"
      and "s' = s\<lparr>pending_candidates :=
                    filter (\<lambda>c. pc_bbox c \<noteq> chosen) (collect_candidates (current_action s)),
                  step_count := step_count s + 1, next_node := Some VALIDATE\<rparr>"
    then show "run_inv (VALIDATE, s', tr')" using collect_candidates_bbox
      by (intro goal) auto
  qed
qed

lemma inv_validate:
  assumes "run_inv (VALIDATE, s, tr)" and "step W (VALIDATE, s, tr) = Inr (n', s', tr')"
  shows "run_inv (n', s', tr')"
proof -
  from step_Inr [OF assms(2)] have r: "validate_node W s tr = Inr (s', tr')"
    and nn: "next_node s' = Some n'"
    by (auto simp: run_node_def)
  have p: "\<forall>p \<in> set (pending_candidates s). pc_bbox p \<noteq> []"
    and e: "extracted_release s = None"
    and h: "stage s = HOME \<Longrightarrow> \<not> on_search_url s"
    using assms(1) by (simp_all add: run_inv_def)
  from validate_node_Inr [OF r] have v: "valid_bbox s" by simp
  from validate_node_Inr [OF r] consider
      (no_png) "s' = s\<lparr>next_node := Some OBSERVE\<rparr>"
    | (outcome) "validate_outcome (fst (assess W s (the (last_png_bytes s))))
                 (record_observation (image_hash W (the (last_png_bytes s))) s) tr = Inr (s', tr')"
    by auto
  then show ?thesis
  proof cases
    case no_png
    then show ?thesis using p e h v nn by (auto simp: run_inv_def valid_bbox_def)
  next
    case outcome
    let ?r = "fst (assess W s (the (last_png_bytes s)))"
    let ?s1 = "record_observation (image_hash W (the (last_png_bytes s))) s"
    from validate_outcome_frame [OF outcome]
    have f: "extracted_release s' = extracted_release s" "last_bbox s' = last_bbox s"
      "current_url s' = current_url s" by simp_all
    from validate_outcome_pending [OF outcome]
    have ps: "set (pending_candidates s') \<subseteq> set (pending_candidates s)"
      by (auto dest: list.set_sel(2))
    have i1: "n' \<noteq> END \<longrightarrow> extracted_release s' = None" using f e by simp
    have i2: "valid_bbox s'" using f v by (simp add: valid_bbox_def)
    have i3: "\<forall>p \<in> set (pending_candidates s'). pc_bbox p \<noteq> []" using ps p by blast
    have i4: "n' = ACT \<longrightarrow> safe_action (current_action s')"
    proof
      assume "n' = ACT"
      with nn have "next_node s' = Some ACT" by simp
      from validate_outcome_to_act [OF outcome this] show "safe_action (current_action s')"
      proof (elim disjE exE conjE)
        fix ra assume "recovery_action ?r = Some ra" "last_action s' = Some ra"
        then show ?thesis using assess_recovery [of W s "the (last_png_bytes s)" ra] safe_recovery_for
          by (simp add: current_action_def)
      next
        assume a: "pending_candidates ?s1 \<noteq> []"
          "last_action s' = Some (next_candidate_action (hd (pending_candidates ?s1)))"
        then have "hd (pending_candidates s) \<in> set (pending_candidates s)" by simp
        with p have "pc_bbox (hd (pending_candidates s)) \<noteq> []" by blast
        then show ?thesis using a safe_next_candidate by (simp add: current_action_def)
      qed
    qed
    have i5: "stage s' = HOME \<longrightarrow> \<not> on_search_url s'"
    proof
      assume sh: "stage s' = HOME"
      from validate_outcome_stage [OF outcome] sh
      have "stage s = HOME \<or> new_stage ?r = Some HOME" by auto
      then have "stage s = HOME" using assess_new_stage [of W s "the (last_png_bytes s)" HOME] by auto
      with h f show "\<not> on_search_url s'" by (simp add: on_search_url_def)
    qed
    show ?thesis using i1 i2 i3 i4 i5 by (simp add: run_inv_def)
  qed
qed

lemma inv_extract:
  assumes "run_inv (EXTRACT, s, tr)" and "step W (EXTRACT, s, tr) = Inr (n', s', tr')"
  shows "run_inv (n', s', tr')"
proof -
  from step_Inr [OF assms(2)] have r: "extract_node W s tr = Inr (s', tr')" and n: "n' = END"
    by (auto simp: run_node_def path_map_def)
  from extract_node_Inr [OF r] assms(1) show ?thesis
    by (auto simp: run_inv_def n valid_bbox_def)
qed

lemma inv_step:
  assumes "run_inv (n, s, tr)" and "n \<noteq> END" and "step W (n, s, tr) = Inr c'"
  shows "run_inv c'"
proof -
  obtain n' s' tr' where c': "c' = (n', s', tr')" by (cases c') auto
  show ?thesis
  proof (cases n)
    case OBSERVE
    with assms c' show ?thesis using inv_observe [of s tr W n' s' tr'] by simp
  next
    case DECIDE
    with assms c' show ?thesis using inv_decide [of s tr W n' s' tr'] by simp
  next
    case ACT
    with assms c' show ?thesis using inv_act [of s tr W n' s' tr'] by simp
  next
    case VALIDATE
    with assms c' show ?thesis using inv_validate [of s tr W n' s' tr'] by simp
  next
    case EXTRACT
    with assms c' show ?thesis using inv_extract [of s tr W n' s' tr'] by simp
  next
    case END
    with assms show ?thesis by simp
  qed
qed

lemma inv_initial:
  "run_inv (OBSERVE, initial_state W repo url user_prompt m_vlm m_router m_prompt ms mr, tr)"
  by (simp add: run_inv_def initial_state_def valid_bbox_def)

lemma reach_inv: "reach W c \<Longrightarrow> run_inv c"
proof (induction rule: reach.induct)
  case (reach_init repo url user_prompt m_vlm m_router m_prompt ms mr)
  show ?case by (rule inv_initial)
next
  case (reach_step n s tr c')
  then show ?case using inv_step by blast
qed

section \<open>The claims about the run\<close>

lemma steps_reach:
  "reach W c \<Longrightarrow> steps W k c = Inr c' \<Longrightarrow> reach W c'"
proof (induction k arbitrary: c)
  case 0
  then show ?case by simp
next
  case (Suc k)
  show ?case
  proof (cases "fst c = END")
    case True
    with Suc.prems show ?thesis by simp
  next
    case False
    obtain n s tr where c: "c = (n, s, tr)" by (cases c) auto
    from False Suc.prems(2) obtain c1 where s1: "step W c = Inr c1" and r: "steps W k c1 = Inr c'"
      by (auto split: sum.splits)
    have "reach W c1" using Suc.prems(1) False s1 unfolding c by (auto intro: reach_step)
    from Suc.IH [OF this r] show ?thesis .
  qed
qed

lemma start_reach: "reach W (start_config W url ms mr)"
  unfolding start_config_def start_state_def by (rule reach_init)

lemma ceiling_home:
  "steps (fixed_world ''https://github.com'' (Inr wait_payload)) 3
     (start_config (fixed_world ''https://github.com'' (Inr wait_payload)) ''https://github.com'' 1 3)
   = Inr (VALIDATE, ceiling_state ''https://github.com'', ceiling_trace ''https://github.com'')"
  by code_simp

lemma ceiling_login:
  "steps (fixed_world ''https://github.com/login'' (Inr wait_payload)) 3
     (start_config (fixed_world ''https://github.com/login'' (Inr wait_payload)) ''https://github.com/login'' 1 3)
   = Inr (VALIDATE, ceiling_state ''https://github.com/login'', ceiling_trace ''https://github.com/login'')"
  by code_simp








lemma force_search_stage_eq: "force_search_stage s = s\<lparr>stage := stage (force_search_stage s)\<rparr>"
  by (simp add: force_search_stage_def)

lemma count_keep_last:
  assumes "length l \<le> 6"
  shows "count_list l x \<le> count_list (keep_last 6 (l @ [x])) x"
proof (cases "length l < 6")
  case True
  then show ?thesis by (simp add: keep_last_def)
next
  case False
  with assms have len: "length l = 6" by simp
  then obtain a l' where l: "l = a # l'" by (cases l) auto
  have "keep_last 6 (l @ [x]) = l' @ [x]" using len by (simp add: keep_last_def l)
  then show ?thesis by (simp add: l)
qed

lemma length_keep_last: "length (keep_last n l) \<le> n"
  by (simp add: keep_last_def)

lemma record_observation_lengths:
  "length (last_screenshot_hashes (record_observation h s)) \<le> 6"
  "truthy (current_url s) \<Longrightarrow> length (last_urls (record_observation h s)) \<le> 6"
  by (simp_all add: record_observation_def push_hash_def push_url_def Let_def length_keep_last)

lemma record_observation_histories:
  "last_screenshot_hashes (record_observation h s) = keep_last 6 (last_screenshot_hashes s @ [h])"
  "last_urls (record_observation h s) =
     (if truthy (current_url s) then keep_last 6 (last_urls s @ [the (current_url s)]) else last_urls s)"
  by (simp_all add: record_observation_def push_hash_def push_url_def Let_def)

lemma stuck_persists:
  assumes "stuck W (record_observation h s) h"
    and "last_screenshot_hashes s2 = last_screenshot_hashes (record_observation h s)"
    and "last_urls s2 = last_urls (record_observation h s)"
    and "current_url s2 = current_url s"
  shows "stuck W (record_observation h s2) h"
proof -
  have hh: "count_list (last_screenshot_hashes (record_observation h s)) h
        \<le> count_list (last_screenshot_hashes (record_observation h s2)) h"
    using count_keep_last [OF record_observation_lengths(1), of h s h]
    by (simp add: record_observation_histories(1) [of h s2] assms(2))
  have uu: "truthy (current_url s) \<Longrightarrow>
        count_list (last_urls (record_observation h s)) (the (current_url s))
        \<le> count_list (last_urls (record_observation h s2)) (the (current_url s))"
    using count_keep_last [OF record_observation_lengths(2), of s h "the (current_url s)"]
    by (simp add: record_observation_histories(2) [of h s2] assms(3,4))
  show ?thesis
    using assms(1) hh uu unfolding stuck_def Let_def
    by (auto simp: assms(4))
qed

lemma recovery_for_cases:
  "recovery_for k = scroll_down_action \<or> recovery_for k = scroll_up_action \<or> recovery_for k = back_action"
  by (simp add: recovery_for_def Let_def)

lemma execute_recovery:
  "execute_action (recovery_for k) s tr = Inr (recovery_event k # tr)"
  by (simp add: execute_action_def recovery_for_def recovery_event_def Let_def scroll_down_action_def
      scroll_up_action_def back_action_def plain_action_def truthy_def)

lemma act_node_recovery:
  assumes "valid_bbox s" and "last_action s = Some (recovery_for k)"
  shows "act_node W s tr =
           Inr (s\<lparr>step_count := step_count s + 1, next_node := Some VALIDATE\<rparr>, recovery_event k # tr)"
proof -
  have v: "AgentState_model_validate s = Inr s"
    using assms(1) by (simp add: AgentState_model_validate_Inr)
  have a: "current_action s = recovery_for k" by (simp add: current_action_def assms(2))
  have nc: "\<not> (act_type (recovery_for k) = ''click'' \<and> truthy (act_bbox (recovery_for k)))"
    by (simp add: recovery_for_def Let_def scroll_down_action_def scroll_up_action_def
        back_action_def plain_action_def truthy_def)
  have cc: "collect_candidates (recovery_for k) = []"
    using safe_recovery_for [of k] nc by (simp add: safe_action_def)
  have f: "finish_act (recovery_for k) s tr =
      Inr (s\<lparr>step_count := step_count s + 1, next_node := Some VALIDATE\<rparr>, recovery_event k # tr)"
    by (simp add: finish_act_def execute_recovery)
  have "act_filter W s (recovery_for k) tr = finish_act (recovery_for k) s tr"
    by (simp add: act_filter_def cc case_prod_beta)
  then show ?thesis using nc f
    by (auto simp: act_node_def v a Let_def)
qed

lemma validate_node_stuck:
  assumes "detects W s"
  shows "validate_node W s tr =
     (if retry_count s + 1 > max_retries_per_stage s
      then Inr ((record_observation (image_hash W (the (last_png_bytes s))) s)
                  \<lparr>retry_count := retry_count s + 1, stage := DONE, next_node := Some END\<rparr>, tr)
      else Inr ((record_observation (image_hash W (the (last_png_bytes s))) s)
                  \<lparr>retry_count := retry_count s + 1,
                    last_action := Some (recovery_for (retry_count s)),
                    next_node := Some ACT\<rparr>, tr))"
proof -
  let ?png = "the (last_png_bytes s)"
  from assms have v: "valid_bbox s" and p: "truthy (last_png_bytes s)" and nl: "\<not> on_login_url s"
    and sc: "step_count s < max_steps s"
    and st: "stuck W (record_observation (image_hash W ?png) s) (image_hash W ?png)"
    by (simp_all add: detects_def)
  have r: "fst (assess W s ?png) =
      empty_result\<lparr>recovery_action := Some (recovery_for (retry_count s)), vr_reason := Some ''stuck''\<rparr>"
    using sc st by (simp add: assess_cases)
  show ?thesis
    using nl
    by (auto simp: validate_node_unfold [OF v p] r validate_outcome_def on_login_url_def Let_def)
qed

lemma recovery_cycle:
  assumes d: "detects W s" and re: "retry_count s < max_retries_per_stage s"
  shows "steps W (Suc (Suc k)) (VALIDATE, s, tr)
         = steps W k (VALIDATE, after_recovery W s, recovery_event (retry_count s) # tr)"
    and "step W (VALIDATE, s, tr)
         = Inr (ACT, (after_recovery W s)\<lparr>step_count := step_count s, next_node := Some ACT\<rparr>, tr)"
    and "step_count s + 1 < max_steps s \<Longrightarrow> detects W (after_recovery W s)"
proof -
  let ?h = "image_hash W (the (last_png_bytes s))"
  let ?sa = "(record_observation ?h s)
                  \<lparr>retry_count := retry_count s + 1,
                    last_action := Some (recovery_for (retry_count s)),
                    next_node := Some ACT\<rparr>"
  have vn: "validate_node W s tr = Inr (?sa, tr)"
    using re by (simp add: validate_node_stuck [OF d])
  then have s1: "step W (VALIDATE, s, tr) = Inr (ACT, ?sa, tr)"
    by (simp add: step_def run_node_def route_def path_map_def)
  have va: "valid_bbox ?sa" using d by (simp add: detects_def valid_bbox_def)
  have an: "act_node W ?sa tr =
      Inr (?sa\<lparr>step_count := step_count ?sa + 1, next_node := Some VALIDATE\<rparr>,
           recovery_event (retry_count s) # tr)"
    by (rule act_node_recovery [OF va]) simp
  have eq: "?sa\<lparr>step_count := step_count ?sa + 1, next_node := Some VALIDATE\<rparr> = after_recovery W s"
    by (simp add: after_recovery_def)
  have s2: "step W (ACT, ?sa, tr) = Inr (VALIDATE, after_recovery W s, recovery_event (retry_count s) # tr)"
    using an unfolding eq
    by (simp add: step_def run_node_def route_def path_map_def after_recovery_def)
  show "steps W (Suc (Suc k)) (VALIDATE, s, tr)
         = steps W k (VALIDATE, after_recovery W s, recovery_event (retry_count s) # tr)"
    by (simp add: s1 s2)
  show "step W (VALIDATE, s, tr)
         = Inr (ACT, (after_recovery W s)\<lparr>step_count := step_count s, next_node := Some ACT\<rparr>, tr)"
    by (simp add: s1 after_recovery_def)
  show "detects W (after_recovery W s)" if "step_count s + 1 < max_steps s"
  proof -
    have "stuck W (record_observation ?h (after_recovery W s)) ?h"
    proof (rule stuck_persists [of W ?h s])
      show "stuck W (record_observation ?h s) ?h" using d by (simp add: detects_def)
    qed (simp_all add: after_recovery_def)
    moreover have "image_hash W (the (last_png_bytes (after_recovery W s))) = ?h"
      by (simp add: after_recovery_def)
    ultimately show ?thesis
      using d that by (simp add: detects_def after_recovery_def valid_bbox_def on_login_url_def)
  qed
qed

lemma steps_1: "n \<noteq> END \<Longrightarrow> steps W (Suc 0) (n, s, tr) = step W (n, s, tr)"
  by (simp split: sum.splits)

subsection \<open>Concrete runs\<close>

lemma run_bounced:
  "steps bounce_world 5 (start_config bounce_world search_url 25 3) = Inr (DECIDE, bounced_state, bounced_trace)"
  by code_simp

lemma run_first_decide:
  "steps bounce_world 1 (start_config bounce_world search_url 25 3)
     = Inr (DECIDE, observed search_url search_url 25 3, [Observe, Goto search_url])"
  by code_simp






lemma run_idle_3:
  "steps (fixed_world home_url (Inr wait_payload)) 11
     (start_config (fixed_world home_url (Inr wait_payload)) home_url 3 3)
   = Inr (VALIDATE, idle_state 3, idle_trace)"
  by code_simp

lemma run_idle_25:
  "steps (fixed_world home_url (Inr wait_payload)) 11
     (start_config (fixed_world home_url (Inr wait_payload)) home_url 25 3)
   = Inr (VALIDATE, idle_state 25, idle_trace)"
  by code_simp

text \<open>
  C1, amended. For every reachable state at \<open>VALIDATE\<close> whose step counter has
  reached the ceiling, with a screenshot present and a current URL that is not a login
  page: the validator returns \<^verbatim>\<open>should_stop\<close>, the run goes to \<open>END\<close> with stage
  \<^verbatim>\<open>DONE\<close>, and \<^verbatim>\<open>extracted_release\<close> is still unset.
\<close>

theorem max_steps_stops_run:
  fixes W :: world and s :: AgentState
  defines "png \<equiv> the (last_png_bytes s)"
  defines "final \<equiv> (record_observation (image_hash W png) s)\<lparr>stage := DONE, next_node := Some END\<rparr>"
  assumes "reach W (VALIDATE, s, tr)"
    and "step_count s \<ge> max_steps s"
    and "truthy (last_png_bytes s)"
    and "\<not> on_login_url s"
  shows "should_stop (fst (assess W s png))
       \<and> step W (VALIDATE, s, tr) = Inr (END, final, tr)
       \<and> stage final = DONE \<and> extracted_release final = None"
proof -
  from reach_inv [OF assms(3)] have v: "valid_bbox s" and e: "extracted_release s = None"
    by (simp_all add: run_inv_def)
  have stop: "should_stop (fst (assess W s png))"
    using assms(4) by (simp add: assess_should_stop)
  have ns: "new_stage (fst (assess W s png)) = None"
    using assms(4) by (simp add: assess_cases)
  have "validate_node W s tr = Inr (final, tr)"
    using assms(6) stop ns
    by (auto simp: validate_node_unfold [OF v assms(5)] validate_outcome_def on_login_url_def
        png_def [symmetric] final_def)
  then have "step W (VALIDATE, s, tr) = Inr (END, final, tr)"
    by (simp add: step_def run_node_def route_def path_map_def final_def)
  then show ?thesis using stop e by (simp add: final_def)
qed

theorem max_steps_stops_run_witness:
  "reach (fixed_world ''https://github.com'' (Inr wait_payload))
     (VALIDATE, ceiling_state ''https://github.com'', ceiling_trace ''https://github.com'')
   \<and> step_count (ceiling_state ''https://github.com'') \<ge> max_steps (ceiling_state ''https://github.com'')
   \<and> truthy (last_png_bytes (ceiling_state ''https://github.com''))
   \<and> \<not> on_login_url (ceiling_state ''https://github.com'')
   \<and> step (fixed_world ''https://github.com'' (Inr wait_payload))
        (VALIDATE, ceiling_state ''https://github.com'', ceiling_trace ''https://github.com'')
       = Inr (END,
              (ceiling_state ''https://github.com'')
                \<lparr>last_urls := [''https://github.com''],
                  last_screenshot_hashes := [''ffffffffffffffff''],
                  stage := DONE, next_node := Some END\<rparr>,
              ceiling_trace ''https://github.com'')"
proof -
  let ?W = "fixed_world ''https://github.com'' (Inr wait_payload)"
  let ?s = "ceiling_state ''https://github.com''"
  have r: "reach ?W (VALIDATE, ?s, ceiling_trace ''https://github.com'')"
    using steps_reach [OF start_reach ceiling_home] .
  have a: "step_count ?s \<ge> max_steps ?s" by (simp add: ceiling_state_def)
  have b: "truthy (last_png_bytes ?s)" by (simp add: ceiling_state_def truthy_def)
  have c: "\<not> on_login_url ?s" by code_simp
  have d: "(record_observation (image_hash ?W (the (last_png_bytes ?s))) ?s)\<lparr>stage := DONE, next_node := Some END\<rparr>
         = ?s\<lparr>last_urls := [''https://github.com''],
                  last_screenshot_hashes := [''ffffffffffffffff''],
                  stage := DONE, next_node := Some END\<rparr>"
    by code_simp
  from max_steps_stops_run [OF r a b c] r a b c show ?thesis
    unfolding d by simp
qed

text \<open>
  C1, as stated, fails on a login page: with the step counter at the ceiling the
  validator returns \<^verbatim>\<open>should_stop\<close>, but \<^verbatim>\<open>validate_node\<close> tests the login URL first
  and sends the run back to \<open>OBSERVE\<close>, the stage unchanged.
\<close>

theorem max_steps_on_login_page_goes_on:
  "reach (fixed_world ''https://github.com/login'' (Inr wait_payload))
     (VALIDATE, ceiling_state ''https://github.com/login'', ceiling_trace ''https://github.com/login'')
   \<and> step_count (ceiling_state ''https://github.com/login'') \<ge> max_steps (ceiling_state ''https://github.com/login'')
   \<and> extracted_release (ceiling_state ''https://github.com/login'') = None
   \<and> step (fixed_world ''https://github.com/login'' (Inr wait_payload))
        (VALIDATE, ceiling_state ''https://github.com/login'', ceiling_trace ''https://github.com/login'')
       = Inr (OBSERVE,
              (ceiling_state ''https://github.com/login'')
                \<lparr>last_urls := [''https://github.com/login''],
                  last_screenshot_hashes := [''ffffffffffffffff''],
                  next_node := Some OBSERVE\<rparr>,
              ceiling_trace ''https://github.com/login'')
   \<and> stage (ceiling_state ''https://github.com/login'') = HOME"
proof -
  let ?W = "fixed_world ''https://github.com/login'' (Inr wait_payload)"
  let ?s = "ceiling_state ''https://github.com/login''"
  have r: "reach ?W (VALIDATE, ?s, ceiling_trace ''https://github.com/login'')"
    using steps_reach [OF start_reach ceiling_login] .
  have a: "step_count ?s \<ge> max_steps ?s" "extracted_release ?s = None" "stage ?s = HOME"
    by (simp_all add: ceiling_state_def)
  have d: "step ?W (VALIDATE, ?s, ceiling_trace ''https://github.com/login'')
       = Inr (OBSERVE,
              ?s\<lparr>last_urls := [''https://github.com/login''],
                  last_screenshot_hashes := [''ffffffffffffffff''],
                  next_node := Some OBSERVE\<rparr>,
              ceiling_trace ''https://github.com/login'')"
    by code_simp
  from r a d show ?thesis by simp
qed







text \<open>
  C6, amended. Whenever the stuck condition holds on a state that validates, has a
  screenshot, is not on a login page and is under the step ceiling, the validator
  returns the recovery action chosen by \<^verbatim>\<open>retry_count mod 3\<close> (scroll down for 0, scroll
  up for 1, back for 2), and \<^verbatim>\<open>validate_node\<close> substitutes it and goes to \<open>ACT\<close> as long
  as the retry ceiling is not exceeded. From \<^verbatim>\<open>retry_count == 0\<close>, with a retry ceiling
  of at least 3 and two more steps under the step ceiling, the next three detections
  follow one another with no observation between them and produce scroll-down,
  scroll-up, back in this order.
\<close>

theorem stuck_recovery_rotation:
  fixes W :: world and s :: AgentState
  defines "h \<equiv> image_hash W (the (last_png_bytes s))"
  assumes v: "valid_bbox s" and png: "truthy (last_png_bytes s)" and nl: "\<not> on_login_url s"
    and st: "stuck W (record_observation h s) h"
    and sc: "step_count s < max_steps s"
  shows "recovery_action (fst (assess W s (the (last_png_bytes s)))) = Some (recovery_for (retry_count s))
       \<and> recovery_for (retry_count s) =
           (if retry_count s mod 3 = 0 then scroll_down_action
            else if retry_count s mod 3 = 1 then scroll_up_action else back_action)
       \<and> (retry_count s < max_retries_per_stage s \<longrightarrow>
            step W (VALIDATE, s, tr)
              = Inr (ACT, (record_observation h s)
                            \<lparr>retry_count := retry_count s + 1,
                              last_action := Some (recovery_for (retry_count s)),
                              next_node := Some ACT\<rparr>, tr))
       \<and> (retry_count s = 0 \<and> 3 \<le> max_retries_per_stage s \<and> step_count s + 2 < max_steps s \<longrightarrow>
            (\<exists>s1 s3 s5.
               steps W 1 (VALIDATE, s, tr) = Inr (ACT, s1, tr)
             \<and> last_action s1 = Some scroll_down_action
             \<and> steps W 3 (VALIDATE, s, tr) = Inr (ACT, s3, Scroll ''down'' 500 # tr)
             \<and> last_action s3 = Some scroll_up_action
             \<and> steps W 5 (VALIDATE, s, tr) = Inr (ACT, s5, Scroll ''up'' 400 # Scroll ''down'' 500 # tr)
             \<and> last_action s5 = Some back_action))"
proof (intro conjI impI)
  have d: "detects W s" using v png nl st sc by (simp add: detects_def h_def)
  show "recovery_action (fst (assess W s (the (last_png_bytes s)))) = Some (recovery_for (retry_count s))"
    using st sc by (simp add: assess_cases h_def)
  show "recovery_for (retry_count s) =
           (if retry_count s mod 3 = 0 then scroll_down_action
            else if retry_count s mod 3 = 1 then scroll_up_action else back_action)"
    by (simp add: recovery_for_def Let_def)
  show "step W (VALIDATE, s, tr)
              = Inr (ACT, (record_observation h s)
                            \<lparr>retry_count := retry_count s + 1,
                              last_action := Some (recovery_for (retry_count s)),
                              next_node := Some ACT\<rparr>, tr)"
    if "retry_count s < max_retries_per_stage s"
    using recovery_cycle(2) [OF d that, of tr] by (simp add: after_recovery_def h_def)
  show "\<exists>s1 s3 s5.
               steps W 1 (VALIDATE, s, tr) = Inr (ACT, s1, tr)
             \<and> last_action s1 = Some scroll_down_action
             \<and> steps W 3 (VALIDATE, s, tr) = Inr (ACT, s3, Scroll ''down'' 500 # tr)
             \<and> last_action s3 = Some scroll_up_action
             \<and> steps W 5 (VALIDATE, s, tr) = Inr (ACT, s5, Scroll ''up'' 400 # Scroll ''down'' 500 # tr)
             \<and> last_action s5 = Some back_action"
    if a: "retry_count s = 0 \<and> 3 \<le> max_retries_per_stage s \<and> step_count s + 2 < max_steps s"
  proof -
    let ?a = "after_recovery W s"
    let ?b = "after_recovery W ?a"
    let ?t1 = "Scroll ''down'' 500 # tr"
    let ?t2 = "Scroll ''up'' 400 # Scroll ''down'' 500 # tr"
    have r0: "retry_count s < max_retries_per_stage s" using a by simp
    have da: "detects W ?a" using recovery_cycle(3) [OF d r0] a by simp
    have ra: "retry_count ?a = 1" "max_retries_per_stage ?a = max_retries_per_stage s"
      "step_count ?a = step_count s + 1" "max_steps ?a = max_steps s"
      using a by (simp_all add: after_recovery_def)
    have r1: "retry_count ?a < max_retries_per_stage ?a" using a ra by simp
    have db: "detects W ?b" using recovery_cycle(3) [OF da r1] a ra by simp
    have rb: "retry_count ?b = 2" "max_retries_per_stage ?b = max_retries_per_stage s"
      using ra by (simp_all add: after_recovery_def [of W ?a])
    have r2: "retry_count ?b < max_retries_per_stage ?b" using a rb by simp
    have e0: "recovery_event (retry_count s) = Scroll ''down'' 500"
      using a by (simp add: recovery_event_def)
    have e1: "recovery_event (retry_count ?a) = Scroll ''up'' 400"
      by (simp add: ra recovery_event_def)
    have f0: "recovery_for (retry_count s) = scroll_down_action"
      using a by (simp add: recovery_for_def)
    have f1: "recovery_for (retry_count ?a) = scroll_up_action"
      by (simp add: ra recovery_for_def)
    have f2: "recovery_for (retry_count ?b) = back_action"
      by (simp add: rb recovery_for_def Let_def)
    have k1: "steps W 1 (VALIDATE, s, tr)
        = Inr (ACT, ?a\<lparr>step_count := step_count s, next_node := Some ACT\<rparr>, tr)"
      using recovery_cycle(2) [OF d r0, of tr] by (simp add: steps_1)
    have k3: "steps W 3 (VALIDATE, s, tr)
        = Inr (ACT, ?b\<lparr>step_count := step_count ?a, next_node := Some ACT\<rparr>, ?t1)"
    proof -
      have "steps W 3 (VALIDATE, s, tr) = steps W (Suc 0) (VALIDATE, ?a, ?t1)"
        using recovery_cycle(1) [OF d r0, of "Suc 0" tr] by (simp add: numeral_3_eq_3 e0)
      also have "\<dots> = Inr (ACT, ?b\<lparr>step_count := step_count ?a, next_node := Some ACT\<rparr>, ?t1)"
        using recovery_cycle(2) [OF da r1, of ?t1] by (simp add: steps_1)
      finally show ?thesis .
    qed
    have k5: "steps W 5 (VALIDATE, s, tr)
        = Inr (ACT, (after_recovery W ?b)\<lparr>step_count := step_count ?b, next_node := Some ACT\<rparr>, ?t2)"
    proof -
      have five: "(5 :: nat) = Suc (Suc (Suc (Suc (Suc 0))))" by simp
      have "steps W 5 (VALIDATE, s, tr) = steps W (Suc (Suc (Suc 0))) (VALIDATE, ?a, ?t1)"
        unfolding five using recovery_cycle(1) [OF d r0, of "Suc (Suc (Suc 0))" tr] by (simp only: e0)
      also have "\<dots> = steps W (Suc 0) (VALIDATE, ?b, ?t2)"
        using recovery_cycle(1) [OF da r1, of "Suc 0" ?t1] by (simp only: e1)
      also have "\<dots> = Inr (ACT, (after_recovery W ?b)\<lparr>step_count := step_count ?b, next_node := Some ACT\<rparr>, ?t2)"
        using recovery_cycle(2) [OF db r2, of ?t2] by (simp add: steps_1)
      finally show ?thesis .
    qed
    have l1: "last_action (?a\<lparr>step_count := step_count s, next_node := Some ACT\<rparr>) = Some scroll_down_action"
      using f0 by (simp add: after_recovery_def)
    have l3: "last_action (?b\<lparr>step_count := step_count ?a, next_node := Some ACT\<rparr>) = Some scroll_up_action"
      using f1 by (simp add: after_recovery_def [of W ?a])
    have l5: "last_action ((after_recovery W ?b)\<lparr>step_count := step_count ?b, next_node := Some ACT\<rparr>)
           = Some back_action"
      using f2 by (simp add: after_recovery_def [of W ?b])
    from k1 k3 k5 l1 l3 l5 show ?thesis by blast
  qed
qed

theorem stuck_recovery_rotation_witness:
  "reach (fixed_world home_url (Inr wait_payload)) (VALIDATE, idle_state 25, idle_trace)
   \<and> valid_bbox (idle_state 25) \<and> truthy (last_png_bytes (idle_state 25))
   \<and> \<not> on_login_url (idle_state 25)
   \<and> stuck (fixed_world home_url (Inr wait_payload))
        (record_observation
           (image_hash (fixed_world home_url (Inr wait_payload)) (the (last_png_bytes (idle_state 25))))
           (idle_state 25))
        (image_hash (fixed_world home_url (Inr wait_payload)) (the (last_png_bytes (idle_state 25))))
   \<and> step_count (idle_state 25) < max_steps (idle_state 25)
   \<and> retry_count (idle_state 25) = 0 \<and> 3 \<le> max_retries_per_stage (idle_state 25)
   \<and> step_count (idle_state 25) + 2 < max_steps (idle_state 25)
   \<and> recovery_action (fst (assess (fixed_world home_url (Inr wait_payload)) (idle_state 25)
                                (the (last_png_bytes (idle_state 25))))) = Some scroll_down_action
   \<and> (\<exists>s1 s3 s5.
         steps (fixed_world home_url (Inr wait_payload)) 1 (VALIDATE, idle_state 25, idle_trace)
           = Inr (ACT, s1, idle_trace)
       \<and> last_action s1 = Some scroll_down_action
       \<and> steps (fixed_world home_url (Inr wait_payload)) 3 (VALIDATE, idle_state 25, idle_trace)
           = Inr (ACT, s3, Scroll ''down'' 500 # idle_trace)
       \<and> last_action s3 = Some scroll_up_action
       \<and> steps (fixed_world home_url (Inr wait_payload)) 5 (VALIDATE, idle_state 25, idle_trace)
           = Inr (ACT, s5, Scroll ''up'' 400 # Scroll ''down'' 500 # idle_trace)
       \<and> last_action s5 = Some back_action)"
proof -
  let ?W = "fixed_world home_url (Inr wait_payload)"
  let ?s = "idle_state 25"
  let ?h = "image_hash ?W (the (last_png_bytes ?s))"
  have r: "reach ?W (VALIDATE, ?s, idle_trace)"
    using steps_reach [OF start_reach run_idle_25] .
  have v: "valid_bbox ?s" by code_simp
  have p: "truthy (last_png_bytes ?s)" by code_simp
  have l: "\<not> on_login_url ?s" by code_simp
  have st: "stuck ?W (record_observation ?h ?s) ?h" by code_simp
  have sc: "step_count ?s < max_steps ?s" by code_simp
  have a: "retry_count ?s = 0" "3 \<le> max_retries_per_stage ?s" "step_count ?s + 2 < max_steps ?s"
    by code_simp+
  have f: "recovery_for 0 = scroll_down_action" by (simp add: recovery_for_def)
  note t = stuck_recovery_rotation [OF v p l st sc, of idle_trace]
  from t a f have
    "recovery_action (fst (assess ?W ?s (the (last_png_bytes ?s)))) = Some scroll_down_action"
    by simp
  moreover from t a have "\<exists>s1 s3 s5.
         steps ?W 1 (VALIDATE, ?s, idle_trace) = Inr (ACT, s1, idle_trace)
       \<and> last_action s1 = Some scroll_down_action
       \<and> steps ?W 3 (VALIDATE, ?s, idle_trace) = Inr (ACT, s3, Scroll ''down'' 500 # idle_trace)
       \<and> last_action s3 = Some scroll_up_action
       \<and> steps ?W 5 (VALIDATE, ?s, idle_trace)
           = Inr (ACT, s5, Scroll ''up'' 400 # Scroll ''down'' 500 # idle_trace)
       \<and> last_action s5 = Some back_action"
    by blast
  ultimately show ?thesis using r v p l st sc a by blast
qed

text \<open>
  C6, as stated, fails at the step ceiling: on a reachable state where the hash and
  the URL have each been seen three times but the step counter has reached the
  ceiling, the validator returns no recovery action, and \<^verbatim>\<open>validate_node\<close> ends the
  run with the last action left as it was.
\<close>

theorem stuck_at_step_ceiling_stops:
  "reach (fixed_world home_url (Inr wait_payload)) (VALIDATE, idle_state 3, idle_trace)
   \<and> truthy (last_png_bytes (idle_state 3))
   \<and> image_hash (fixed_world home_url (Inr wait_payload)) (the (last_png_bytes (idle_state 3))) = hash_f
   \<and> stuck (fixed_world home_url (Inr wait_payload)) (record_observation hash_f (idle_state 3)) hash_f
   \<and> recovery_action (fst (assess (fixed_world home_url (Inr wait_payload)) (idle_state 3)
                                (the (last_png_bytes (idle_state 3))))) = None
   \<and> step (fixed_world home_url (Inr wait_payload)) (VALIDATE, idle_state 3, idle_trace)
       = Inr (END, (idle_state 3)
                     \<lparr>last_urls := [home_url, home_url, home_url],
                       last_screenshot_hashes := [hash_f, hash_f, hash_f],
                       stage := DONE, next_node := Some END\<rparr>,
              idle_trace)
   \<and> last_action (idle_state 3) = Some wait_action"
proof -
  let ?W = "fixed_world home_url (Inr wait_payload)"
  have r: "reach ?W (VALIDATE, idle_state 3, idle_trace)"
    using steps_reach [OF start_reach run_idle_3] .
  have a: "truthy (last_png_bytes (idle_state 3))"
    "image_hash ?W (the (last_png_bytes (idle_state 3))) = hash_f"
    "stuck ?W (record_observation hash_f (idle_state 3)) hash_f"
    "recovery_action (fst (assess ?W (idle_state 3) (the (last_png_bytes (idle_state 3))))) = None"
    by code_simp+
  have b: "step ?W (VALIDATE, idle_state 3, idle_trace)
       = Inr (END, (idle_state 3)
                     \<lparr>last_urls := [home_url, home_url, home_url],
                       last_screenshot_hashes := [hash_f, hash_f, hash_f],
                       stage := DONE, next_node := Some END\<rparr>,
              idle_trace)"
    by code_simp
  have c: "last_action (idle_state 3) = Some wait_action" by (simp add: idle_state_def)
  from r a b c show ?thesis by simp
qed

text \<open>
  C7, amended. \<^verbatim>\<open>decide_node\<close> sets the stage to \<^verbatim>\<open>SEARCH_RESULTS\<close> exactly when the
  current URL is not empty and contains \<^verbatim>\<open>/search\<close>, whatever the stage was (so also
  from \<^verbatim>\<open>HOME\<close>); otherwise it leaves the stage as it is. The action is chosen with the
  stage so set.
\<close>

theorem decide_forces_search_stage:
  assumes "decide_node W s tr = Inr (s', tr')"
  shows "stage s' = (if on_search_url s then SEARCH_RESULTS else stage s)
       \<and> (\<exists>a. choose_action W (s\<lparr>stage := stage s'\<rparr>) tr = (Inr a, tr') \<and> last_action s' = Some a)"
proof -
  from decide_node_Inr [OF assms] obtain a where
    c: "choose_action W (force_search_stage s) tr = (Inr a, tr')" and
    s': "s' = (force_search_stage s)\<lparr>last_action := Some a,
                     last_bbox := (if truthy (act_bbox a) then act_bbox a else last_bbox s),
                     next_node := Some ACT\<rparr>"
    by blast
  have st: "stage s' = stage (force_search_stage s)" by (simp add: s')
  have "choose_action W (s\<lparr>stage := stage s'\<rparr>) tr = (Inr a, tr')"
    using c force_search_stage_eq [of s] by (simp add: st)
  moreover have "last_action s' = Some a" by (simp add: s')
  ultimately show ?thesis using st by auto
qed

theorem decide_forces_search_stage_witness:
  "decide_node bounce_world (observed search_url search_url 25 3) [Observe, Goto search_url]
       = Inr ((observed search_url search_url 25 3)
                \<lparr>stage := SEARCH_RESULTS, last_action := Some (card_click [300, 200, 700, 300]),
                  last_bbox := Some [300, 200, 700, 300], next_node := Some ACT\<rparr>,
              [GetAction ''PNG'' search_prompt ''SEARCH_RESULTS'', Observe, Goto search_url])
   \<and> on_search_url (observed search_url search_url 25 3)
   \<and> stage (observed search_url search_url 25 3) = HOME
   \<and> stage ((observed search_url search_url 25 3)
                \<lparr>stage := SEARCH_RESULTS, last_action := Some (card_click [300, 200, 700, 300]),
                  last_bbox := Some [300, 200, 700, 300], next_node := Some ACT\<rparr>) = SEARCH_RESULTS"
proof -
  let ?s = "observed search_url search_url 25 3"
  let ?s' = "?s\<lparr>stage := SEARCH_RESULTS, last_action := Some (card_click [300, 200, 700, 300]),
                  last_bbox := Some [300, 200, 700, 300], next_node := Some ACT\<rparr>"
  have d: "decide_node bounce_world ?s [Observe, Goto search_url]
       = Inr (?s', [GetAction ''PNG'' search_prompt ''SEARCH_RESULTS'', Observe, Goto search_url])"
    by code_simp
  have a: "on_search_url ?s" "stage ?s = HOME" by code_simp+
  from decide_forces_search_stage [OF d] a have "stage ?s' = SEARCH_RESULTS" by simp
  with d a show ?thesis by simp
qed

text \<open>
  C7, as stated, fails for a stage other than \<^verbatim>\<open>HOME\<close>: a reachable session in stage
  \<^verbatim>\<open>REPO\<close> whose page is still the search page is set back to \<^verbatim>\<open>SEARCH_RESULTS\<close>
  by \<^verbatim>\<open>decide_node\<close>, and the vision model is asked with that stage.
\<close>

theorem decide_restages_repo_session:
  "reach bounce_world (DECIDE, bounced_state, bounced_trace)
   \<and> stage bounced_state = REPO \<and> on_search_url bounced_state
   \<and> decide_node bounce_world bounced_state bounced_trace
       = Inr (bounced_state\<lparr>stage := SEARCH_RESULTS, next_node := Some ACT\<rparr>,
              GetAction ''PNG'' search_prompt ''SEARCH_RESULTS'' # bounced_trace)"
proof -
  have r: "reach bounce_world (DECIDE, bounced_state, bounced_trace)"
    using steps_reach [OF start_reach run_bounced] .
  have a: "stage bounced_state = REPO" "on_search_url bounced_state" by code_simp+
  have b: "decide_node bounce_world bounced_state bounced_trace
       = Inr (bounced_state\<lparr>stage := SEARCH_RESULTS, next_node := Some ACT\<rparr>,
              GetAction ''PNG'' search_prompt ''SEARCH_RESULTS'' # bounced_trace)"
    by code_simp
  from r a b show ?thesis by simp
qed



end

